theory Spec2Isabelle
  imports Main
begin

section \<open>JavaScript values used by the SDK\<close>

text \<open>
  A value that is either a string or \<open>null\<close>/\<open>undefined\<close> is a \<open>string option\<close>.
  JavaScript treats \<open>null\<close>, \<open>undefined\<close> and the empty string as falsy.
\<close>

definition truthy :: "string option \<Rightarrow> bool" where
  "truthy v = (case v of None \<Rightarrow> False | Some s \<Rightarrow> s \<noteq> [])"

text \<open>\<open>a || b\<close> on such values.\<close>

definition js_or :: "string option \<Rightarrow> string option \<Rightarrow> string option" where
  "js_or a b = (if truthy a then a else b)"

text \<open>\<open>s.startsWith(p)\<close>.\<close>

definition startsWith :: "string \<Rightarrow> string \<Rightarrow> bool" where
  "startsWith s p = (take (length p) s = p)"

text \<open>
  The credential object is a plain object (\<open>{}\<close> or the result of \<open>JSON.parse\<close>), so
  reading \<open>obj[k]\<close> finds the object's own entries and, for a name it does not have
  itself, what every object inherits from \<open>Object.prototype\<close>: a function, or for
  \<open>__proto__\<close> the prototype object. A value read from it is therefore a stored key or
  such an inherited value.
\<close>

datatype access_key =
    Key string
  | Inherited string

definition inherited :: "string \<Rightarrow> bool" where
  "inherited n \<longleftrightarrow>
     n \<in> set [''constructor'', ''hasOwnProperty'', ''isPrototypeOf'', ''propertyIsEnumerable'',
               ''toLocaleString'', ''toString'', ''valueOf'', ''__proto__'',
               ''__defineGetter__'', ''__defineSetter__'', ''__lookupGetter__'',
               ''__lookupSetter__'']"

text \<open>Functions and objects are truthy; a string is truthy unless it is empty.\<close>

definition truthy_key :: "access_key option \<Rightarrow> bool" where
  "truthy_key v =
     (case v of None \<Rightarrow> False | Some (Key s) \<Rightarrow> s \<noteq> [] | Some (Inherited n) \<Rightarrow> True)"

text \<open>\<open>obj[k]\<close>: a \<open>null\<close> key is coerced to the property name \<open>"null"\<close>.\<close>

definition property :: "(string \<rightharpoonup> string) \<Rightarrow> string option \<Rightarrow> access_key option" where
  "property m k =
     (let n = (case k of None \<Rightarrow> ''null'' | Some s \<Rightarrow> s)
      in case m n of
           Some v \<Rightarrow> Some (Key v)
         | None \<Rightarrow> if inherited n then Some (Inherited n) else None)"

text \<open>
  \<open>obj[k] = v\<close> with a string \<open>v\<close>: an own entry is written, except that assigning to
  \<open>__proto__\<close> runs the inherited setter, which ignores a string and writes nothing.
\<close>

definition assign :: "(string \<rightharpoonup> string) \<Rightarrow> string \<Rightarrow> string \<Rightarrow> (string \<rightharpoonup> string)" where
  "assign m k v = (if k = ''__proto__'' then m else m(k \<mapsto> v))"

text \<open>
  \<open>new Date(t).getTime()\<close> for a number \<open>t\<close>: a time value beyond 8.64e15 ms on either
  side of the epoch gives an invalid date, whose time is \<open>NaN\<close> (\<open>None\<close>).
\<close>

definition valid_time :: "int \<Rightarrow> bool" where
  "valid_time t \<longleftrightarrow> - 8640000000000000 \<le> t \<and> t \<le> 8640000000000000"

definition new_Date :: "int \<Rightarrow> int option" where
  "new_Date t = (if valid_time t then Some t else None)"

text \<open>
  The delay the platform's \<open>setTimeout\<close> waits for: its argument is converted to a signed
  32-bit integer (wrapping modulo \<open>2^32\<close>), and a negative result counts as 0. A delay
  above \<open>2^31 - 1\<close> ms (24.8 days) therefore does not wait that long.
\<close>

definition timeout_ms :: "int \<Rightarrow> int" where
  "timeout_ms delay =
     max 0 ((delay + 2147483648) mod 4294967296 - 2147483648)"

text \<open>
  The decimal rendering of \<open>date.getTime()\<close> inside a template literal. Timestamps are
  integers (milliseconds since the epoch, within the range of \<open>Date\<close>, where JavaScript
  prints all digits).
\<close>

definition digit :: "nat \<Rightarrow> char" where
  "digit n = ''0123456789'' ! (n mod 10)"

fun show_nat :: "nat \<Rightarrow> string" where
  "show_nat n = (if n < 10 then [digit n] else show_nat (n div 10) @ [digit n])"

declare show_nat.simps [simp del]

definition show_int :: "int \<Rightarrow> string" where
  "show_int i = (if i < 0 then CHR ''-'' # show_nat (nat (- i)) else show_nat (nat i))"

section \<open>Data model\<close>

text \<open>Only the identifier of a product is kept; the SDK never inspects the rest here.\<close>

datatype Product = Product string

record CachedProducts =
  products :: "Product list"
  fetchedAt :: int

text \<open>
  Of a purchase the scheduler reads \<open>purchaseId\<close> and \<open>expirationDate\<close>. The field
  \<open>expirationDate\<close> holds the number of milliseconds the date string stands for: \<open>None\<close>
  is a missing or unparseable date.
\<close>

record Purchase =
  purchaseId :: string
  expirationDate :: "int option"

record ScheduledRefresh =
  id_sr :: string
  subscriptionId :: string
  scheduledAt :: int
  completed :: bool
  inProgress :: bool
  reason :: string

datatype request =
    GetPrices
  | GetPurchases string access_key

datatype error =
    NoAccessKey string
  | RequestFailed

datatype prices_reply =
    PricesRejected
  | PricesStatusNotOk
  | PricesBodyInvalid
  | PricesOk "Product list"

datatype purchases_reply =
    PurchasesRejected
  | PurchasesStatusNotOk
  | PurchasesBodyNotOk
  | PurchasesOk "Purchase list" "(string \<times> string) list"

text \<open>
  The whole state the SDK works on. \<open>now\<close> is \<open>Date.now()\<close>. The four \<open>iaptic_*\<close> fields
  are the \<open>localStorage\<close> entries of the same names (writes are taken to succeed and JSON
  to round-trip). Schedule objects are mutated in place and shared between
  \<open>this.schedules\<close> and the timer closures, so they live in \<open>heap\<close> (address = index) and
  \<open>schedules\<close> holds addresses. \<open>timers\<close> are the pending browser timers, each with the
  address its closure captured and the instant it is due. \<open>awaiting\<close> are the callbacks
  suspended at \<open>await getPurchases\<close> with a request outstanding. \<open>requests\<close> logs every
  \<open>fetch\<close>, and \<open>lookups\<close> logs the address of every task whose callback reached the call
  of \<open>getPurchases\<close>.
\<close>

record world =
  now :: int
  iaptic_access_keys :: "string \<rightharpoonup> string"
  iaptic_session_id :: "string option"
  iaptic_subscription_id :: "string option"
  iaptic_products :: "CachedProducts option"
  heap :: "ScheduledRefresh list"
  schedules :: "nat list"
  timers :: "(nat \<times> int) list"
  awaiting :: "nat list"
  requests :: "request list"
  lookups :: "nat list"

definition init :: "int \<Rightarrow> world" where
  "init t = \<lparr> now = t, iaptic_access_keys = Map.empty, iaptic_session_id = None,
     iaptic_subscription_id = None, iaptic_products = None, heap = [], schedules = [],
     timers = [], awaiting = [], requests = [], lookups = [] \<rparr>"

section \<open>Credential and identity store\<close>

definition getSessionId :: "world \<Rightarrow> string option" where
  "getSessionId w = iaptic_session_id w"

definition getSubscriptionId :: "world \<Rightarrow> string option" where
  "getSubscriptionId w = iaptic_subscription_id w"

definition setSessionId :: "string \<Rightarrow> world \<Rightarrow> world" where
  "setSessionId i w = w\<lparr>iaptic_session_id := Some i\<rparr>"

definition setSubscriptionId :: "string \<Rightarrow> world \<Rightarrow> world" where
  "setSubscriptionId i w = w\<lparr>iaptic_subscription_id := Some i\<rparr>"

definition getStoredAccessKeys :: "world \<Rightarrow> (string \<rightharpoonup> string)" where
  "getStoredAccessKeys w = iaptic_access_keys w"

definition storeAccessKey :: "string \<Rightarrow> string \<Rightarrow> world \<Rightarrow> world" where
  "storeAccessKey i accessKey w =
     (let w1 = (if startsWith i ''sub_'' then setSubscriptionId i w else w);
          storedKeys = getStoredAccessKeys w1
      in w1\<lparr>iaptic_access_keys := assign storedKeys i accessKey\<rparr>)"

definition getAccessKey :: "string option \<Rightarrow> world \<Rightarrow> access_key option" where
  "getAccessKey i w =
     (let i1 = (if \<not> truthy i then js_or (getSubscriptionId w) (getSessionId w) else i)
      in if \<not> truthy i1 then None
         else let keys = getStoredAccessKeys w
              in if truthy_key (property keys i1) then property keys i1
                 else if truthy_key (property keys (getSessionId w))
                 then property keys (getSessionId w)
                 else None)"

section \<open>Product catalog cache\<close>

definition getCachedProducts :: "world \<Rightarrow> CachedProducts option" where
  "getCachedProducts w = iaptic_products w"

definition setCachedProducts :: "Product list \<Rightarrow> world \<Rightarrow> world" where
  "setCachedProducts ps w = w\<lparr>iaptic_products := Some \<lparr>products = ps, fetchedAt = now w\<rparr>\<rparr>"

text \<open>
  \<open>refreshProducts\<close> awaits one \<open>fetch\<close>. The reply and the time the request takes are
  parameters; the clock has moved on by \<open>latency\<close> when the reply is handled.
\<close>

definition refreshProducts ::
  "nat \<Rightarrow> prices_reply \<Rightarrow> world \<Rightarrow> (error + Product list) \<times> world" where
  "refreshProducts latency reply w =
     (let fresh = (case getCachedProducts w of
                     None \<Rightarrow> None
                   | Some c \<Rightarrow> if fetchedAt c > now w - 60000 then Some (products c) else None)
      in case fresh of
           Some ps \<Rightarrow> (Inr ps, w)
         | None \<Rightarrow>
             (let w1 = w\<lparr>requests := requests w @ [GetPrices], now := now w + int latency\<rparr>
              in case reply of
                   PricesOk ps \<Rightarrow> (Inr ps, setCachedProducts ps w1)
                 | _ \<Rightarrow> (Inl RequestFailed, w1)))"

definition getProducts ::
  "nat \<Rightarrow> prices_reply \<Rightarrow> world \<Rightarrow> (error + Product list) \<times> world" where
  "getProducts latency reply w =
     (case getCachedProducts w of
        Some c \<Rightarrow> (Inr (products c), w)
      | None \<Rightarrow> refreshProducts latency reply w)"

text \<open>Time passing between two calls.\<close>

definition advance :: "nat \<Rightarrow> world \<Rightarrow> world" where
  "advance d w = w\<lparr>now := now w + int d\<rparr>"

section \<open>Refresh scheduler\<close>

text \<open>
  The task id: the template literal \<open>`${subscriptionId}-${date.getTime()}`\<close>.
  \<open>scheduleRefresh\<close> is given a valid date, whose time is \<open>t\<close>; its callers in the SDK
  build that date from \<open>Date.now()\<close> or let \<open>schedulePurchaseRefreshes\<close> filter out the
  invalid ones.
\<close>

definition mk_id :: "string \<Rightarrow> int \<Rightarrow> string" where
  "mk_id sub t = sub @ ''-'' @ show_int t"

text \<open>
  \<open>RefreshScheduler.setTimeout(schedule)\<close>: the registration of the browser timer. The
  closure keeps the schedule object, here its address \<open>a\<close>. The timer is due once the
  platform's delay has passed, which is at \<open>scheduledAt\<close> only for a delay within 32 bits.
  No handle is kept and no timer is ever cancelled.
\<close>

definition setTimeout_sr :: "nat \<Rightarrow> world \<Rightarrow> world" where
  "setTimeout_sr a w =
     (let delay = scheduledAt (heap w ! a) - now w
      in if delay \<le> 0 then w
         else w\<lparr>timers := timers w @ [(a, now w + timeout_ms delay)]\<rparr>)"

definition scheduleRefresh :: "string \<Rightarrow> int \<Rightarrow> string \<Rightarrow> world \<Rightarrow> world" where
  "scheduleRefresh sub t r w =
     (let schedule = \<lparr> id_sr = mk_id sub t, subscriptionId = sub, scheduledAt = t,
                        completed = False, inProgress = False, reason = r \<rparr>
      in if list_ex (\<lambda>b. id_sr (heap w ! b) = id_sr schedule) (schedules w) then w
         else let a = length (heap w)
              in setTimeout_sr a (w\<lparr>heap := heap w @ [schedule], schedules := schedules w @ [a]\<rparr>))"

definition schedulePurchaseRefreshes :: "Purchase \<Rightarrow> world \<Rightarrow> world" where
  "schedulePurchaseRefreshes purchase w =
     (let expiration = Option.bind (expirationDate purchase) new_Date;
          beforeExpiration = Option.bind expiration (\<lambda>t. new_Date (t - 10000));
          afterExpiration = Option.bind expiration (\<lambda>t. new_Date (t + 10000));
          dates = [(beforeExpiration, ''pre-expiration''), (afterExpiration, ''post-expiration'')]
      in foldl (\<lambda>w (date, r).
                  case date of
                    None \<Rightarrow> w
                  | Some t \<Rightarrow> if t > now w then scheduleRefresh (purchaseId purchase) t r w else w)
           w dates)"

definition clearSchedules :: "world \<Rightarrow> world" where
  "clearSchedules w = w\<lparr>schedules := []\<rparr>"

definition clearStoredData :: "world \<Rightarrow> world" where
  "clearStoredData w =
     clearSchedules (w\<lparr>iaptic_access_keys := Map.empty, iaptic_session_id := None,
                       iaptic_subscription_id := None, iaptic_products := None\<rparr>)"

section \<open>Validation client: purchase lookup\<close>

text \<open>
  \<open>getPurchases\<close> is asynchronous. \<open>getPurchases_start\<close> is what runs before the
  \<open>fetch\<close> is awaited, \<open>getPurchases_finish\<close> what runs once the reply is in.
\<close>

datatype started =
    Returned "Purchase list"
  | Thrown error
  | Fetching

definition str_of :: "string option \<Rightarrow> string" where
  "str_of v = (case v of None \<Rightarrow> [] | Some s \<Rightarrow> s)"

definition getPurchases_start ::
  "string option \<Rightarrow> string option \<Rightarrow> world \<Rightarrow> started \<times> world" where
  "getPurchases_start i accessKey w =
     (let i1 = (if \<not> truthy i then js_or (getSubscriptionId w) (getSessionId w) else i);
          accessKey1 = (if \<not> truthy accessKey then getAccessKey i1 w
                        else map_option Key accessKey)
      in if \<not> truthy i1 then (Returned [], w)
         else case (if truthy_key accessKey1 then accessKey1 else None) of
                None \<Rightarrow> (Thrown (NoAccessKey (str_of i1)), w)
              | Some k \<Rightarrow>
                  (Fetching, w\<lparr>requests := requests w @ [GetPurchases (str_of i1) k]\<rparr>))"

definition getPurchases_finish ::
  "purchases_reply \<Rightarrow> world \<Rightarrow> (error + Purchase list) \<times> world" where
  "getPurchases_finish reply w =
     (case reply of
        PurchasesOk purchases new_access_keys \<Rightarrow>
          (let w1 = foldl (\<lambda>w purchase. schedulePurchaseRefreshes purchase w) w purchases;
               w2 = foldl (\<lambda>w (subId, newKey). storeAccessKey subId newKey w) w1 new_access_keys
           in (Inr purchases, w2))
      | _ \<Rightarrow> (Inl RequestFailed, w))"

datatype plan_reply =
    PlanFailed
  | PlanOk Purchase "(string \<times> string) list"

definition changePlan_finish :: "plan_reply \<Rightarrow> world \<Rightarrow> (error + Purchase) \<times> world" where
  "changePlan_finish reply w =
     (case reply of
        PlanOk purchase new_access_keys \<Rightarrow>
          (let w1 = foldl (\<lambda>w (subId, newKey). storeAccessKey subId newKey w) w new_access_keys;
               w2 = schedulePurchaseRefreshes purchase w1;
               w3 = scheduleRefresh (purchaseId purchase) (now w2 + 10000)
                      ''post-change-verification'' w2
           in (Inr purchase, w3))
      | PlanFailed \<Rightarrow> (Inl RequestFailed, w))"

section \<open>Execution of a scheduled refresh\<close>

definition set_inProgress :: "nat \<Rightarrow> bool \<Rightarrow> world \<Rightarrow> world" where
  "set_inProgress a b w = w\<lparr>heap := (heap w)[a := (heap w ! a)\<lparr>inProgress := b\<rparr>]\<rparr>"

definition set_completed :: "nat \<Rightarrow> bool \<Rightarrow> world \<Rightarrow> world" where
  "set_completed a b w = w\<lparr>heap := (heap w)[a := (heap w ! a)\<lparr>completed := b\<rparr>]\<rparr>"

text \<open>The rest of the \<open>try\<close> block after a lookup that returned, then \<open>finally\<close>.\<close>

definition refresh_succeeded :: "nat \<Rightarrow> world \<Rightarrow> world" where
  "refresh_succeeded a w = set_inProgress a False (set_completed a True w)"

text \<open>The \<open>catch\<close> block after a lookup that raised, then \<open>finally\<close>.\<close>

definition refresh_failed :: "nat \<Rightarrow> world \<Rightarrow> world" where
  "refresh_failed a w =
     (let schedule = heap w ! a;
          w1 = (if \<not> startsWith (reason schedule) ''retry-''
                then scheduleRefresh (subscriptionId schedule) (now w + 30000)
                       (''retry-'' @ reason schedule) w
                else w)
      in set_inProgress a False w1)"

text \<open>
  The callback of the timer, up to the point where it is suspended. A lookup that returns
  or raises before its \<open>fetch\<close> is settled before any other timer or reply is handled, so
  its outcome is applied in the same step.
\<close>

definition timer_callback :: "nat \<Rightarrow> world \<Rightarrow> world" where
  "timer_callback a w =
     (let schedule = heap w ! a
      in if completed schedule then w
         else if list_ex (\<lambda>b. subscriptionId (heap w ! b) = subscriptionId schedule
                               \<and> inProgress (heap w ! b)) (schedules w)
         then w
         else (let w1 = set_inProgress a True w;
                   w2 = w1\<lparr>lookups := lookups w1 @ [a]\<rparr>
               in case getPurchases_start (Some (subscriptionId schedule)) None w2 of
                    (Returned ps, w3) \<Rightarrow> refresh_succeeded a w3
                  | (Thrown e, w3) \<Rightarrow> refresh_failed a w3
                  | (Fetching, w3) \<Rightarrow> w3\<lparr>awaiting := awaiting w3 @ [a]\<rparr>))"

text \<open>The callback resumes when the reply to its request arrives.\<close>

definition reply_arrives :: "nat \<Rightarrow> purchases_reply \<Rightarrow> world \<Rightarrow> world" where
  "reply_arrives a reply w =
     (case getPurchases_finish reply w of
        (Inr ps, w1) \<Rightarrow> refresh_succeeded a w1
      | (Inl e, w1) \<Rightarrow> refresh_failed a w1)"

section \<open>The page as an event system\<close>

text \<open>
  Everything runs on one thread: the state changes by one event at a time. Time passes
  (\<open>Advance\<close>); a timer fires at or after its due instant (\<open>Fire\<close>); the reply to the
  request of a suspended callback arrives (\<open>Reply\<close>); the page calls the SDK. Of the
  asynchronous calls made by the page, \<open>Call_getPurchases\<close> is the part of \<open>getPurchases\<close>
  before its \<open>fetch\<close>, and \<open>Done_getPurchases\<close> and \<open>Done_changePlan\<close> are the parts
  of \<open>getPurchases\<close> and \<open>changePlan\<close> that handle the reply. \<open>Checkout_done\<close> is what
  a successful \<open>initCheckoutSession\<close> writes to storage; the redirect that follows is not
  modelled. An event that cannot happen in a state gives \<open>None\<close>.
\<close>

datatype event =
    Advance nat
  | Fire nat
  | Reply nat purchases_reply
  | Call_scheduleRefresh string int string
  | Call_clearSchedules
  | Call_clearStoredData
  | Checkout_done "string option" "string option"
  | Call_getPurchases "string option" "string option"
  | Done_getPurchases purchases_reply
  | Done_changePlan plan_reply
  | Call_getProducts nat prices_reply
  | Call_refreshProducts nat prices_reply

definition checkout_done :: "string option \<Rightarrow> string option \<Rightarrow> world \<Rightarrow> world" where
  "checkout_done sessionId accessKey w =
     (if truthy sessionId
      then (let w1 = setSessionId (str_of sessionId) w
            in if truthy accessKey then storeAccessKey (str_of sessionId) (str_of accessKey) w1
               else w1)
      else w)"

fun step :: "event \<Rightarrow> world \<Rightarrow> world option" where
  "step (Advance d) w = Some (advance d w)"
| "step (Fire a) w =
     (case map_of (timers w) a of
        None \<Rightarrow> None
      | Some due \<Rightarrow>
          if due \<le> now w
          then Some (timer_callback a (w\<lparr>timers := filter (\<lambda>p. fst p \<noteq> a) (timers w)\<rparr>))
          else None)"
| "step (Reply a reply) w =
     (if a \<in> set (awaiting w)
      then Some (reply_arrives a reply (w\<lparr>awaiting := removeAll a (awaiting w)\<rparr>))
      else None)"
| "step (Call_scheduleRefresh sub t r) w = Some (scheduleRefresh sub t r w)"
| "step Call_clearSchedules w = Some (clearSchedules w)"
| "step Call_clearStoredData w = Some (clearStoredData w)"
| "step (Checkout_done sessionId accessKey) w = Some (checkout_done sessionId accessKey w)"
| "step (Call_getPurchases i accessKey) w = Some (snd (getPurchases_start i accessKey w))"
| "step (Done_getPurchases reply) w = Some (snd (getPurchases_finish reply w))"
| "step (Done_changePlan reply) w = Some (snd (changePlan_finish reply w))"
| "step (Call_getProducts latency reply) w = Some (snd (getProducts latency reply w))"
| "step (Call_refreshProducts latency reply) w = Some (snd (refreshProducts latency reply w))"

fun run :: "event list \<Rightarrow> world \<Rightarrow> world option" where
  "run [] w = Some w"
| "run (e # es) w = (case step e w of None \<Rightarrow> None | Some w1 \<Rightarrow> run es w1)"

section \<open>Auxiliary notions for the proofs\<close>

text \<open>Reading a decimal rendering back, to show that the rendering is injective.\<close>

definition digit_val :: "char \<Rightarrow> nat" where
  "digit_val c = of_char c - 48"

definition read_nat :: "string \<Rightarrow> nat" where
  "read_nat s = foldl (\<lambda>n c. 10 * n + digit_val c) 0 s"

text \<open>\<open>this.schedules.some(s => s.id === i)\<close>.\<close>

definition has_id :: "world \<Rightarrow> string \<Rightarrow> bool" where
  "has_id w i = list_ex (\<lambda>b. id_sr (heap w ! b) = i) (schedules w)"

definition timer_addrs :: "world \<Rightarrow> nat set" where
  "timer_addrs w = fst ` set (timers w)"

text \<open>
  What holds of the scheduler in every state the page can reach: the schedule list, the
  timers, the suspended callbacks and the lookup log refer to allocated objects; no two
  listed tasks share an id; a suspended callback's task is not completed and has no timer
  left.
\<close>

definition scheduler_inv :: "world \<Rightarrow> bool" where
  "scheduler_inv w \<longleftrightarrow>
     (\<forall>a \<in> set (schedules w). a < length (heap w)) \<and>
     distinct (map (\<lambda>a. id_sr (heap w ! a)) (schedules w)) \<and>
     (\<forall>a \<in> timer_addrs w. a < length (heap w)) \<and>
     (\<forall>a \<in> set (awaiting w). a < length (heap w) \<and> \<not> completed (heap w ! a)
                                \<and> a \<notin> timer_addrs w) \<and>
     (\<forall>a \<in> set (lookups w). a < length (heap w))"

text \<open>
  \<open>extends w w'\<close>: from \<open>w\<close> to \<open>w'\<close> objects were only allocated; no existing object
  changed, no callback ran, and new timers are for new objects only.
\<close>

definition extends :: "world \<Rightarrow> world \<Rightarrow> bool" where
  "extends w w' \<longleftrightarrow>
     length (heap w) \<le> length (heap w') \<and>
     (\<forall>a < length (heap w). heap w' ! a = heap w ! a) \<and>
     awaiting w' = awaiting w \<and>
     lookups w' = lookups w \<and>
     (\<forall>a \<in> timer_addrs w'. a \<in> timer_addrs w \<or> length (heap w) \<le> a)"

text \<open>A task that has no timer and is not suspended.\<close>

definition idle :: "nat \<Rightarrow> world \<Rightarrow> bool" where
  "idle a w \<longleftrightarrow> a < length (heap w) \<and> a \<notin> timer_addrs w \<and> a \<notin> set (awaiting w)"

text \<open>An idle task that was never looked up.\<close>

definition dormant :: "nat \<Rightarrow> world \<Rightarrow> bool" where
  "dormant a w \<longleftrightarrow> idle a w \<and> a \<notin> set (lookups w)"

text \<open>
  \<open>touches b w w'\<close>: as \<open>extends\<close>, except that the object at \<open>b\<close> may have changed and
  its callback may have run.
\<close>

definition touches :: "nat \<Rightarrow> world \<Rightarrow> world \<Rightarrow> bool" where
  "touches b w w' \<longleftrightarrow>
     length (heap w) \<le> length (heap w') \<and>
     (\<forall>c < length (heap w). c \<noteq> b \<longrightarrow> heap w' ! c = heap w ! c) \<and>
     set (awaiting w') \<subseteq> insert b (set (awaiting w)) \<and>
     (\<forall>c. c \<noteq> b \<longrightarrow> count_list (lookups w') c = count_list (lookups w) c) \<and>
     (\<forall>c \<in> timer_addrs w'. c \<in> timer_addrs w \<or> length (heap w) \<le> c)"

text \<open>The number of listed tasks with a given id.\<close>

definition count_id :: "world \<Rightarrow> string \<Rightarrow> nat" where
  "count_id w i = length (filter (\<lambda>a. id_sr (heap w ! a) = i) (schedules w))"

text \<open>The object \<open>scheduleRefresh\<close> builds.\<close>

definition new_schedule :: "string \<Rightarrow> int \<Rightarrow> string \<Rightarrow> ScheduledRefresh" where
  "new_schedule sub t r =
     \<lparr> id_sr = mk_id sub t, subscriptionId = sub, scheduledAt = t,
       completed = False, inProgress = False, reason = r \<rparr>"

text \<open>The tasks listed, and the timers registered, between two states.\<close>

definition new_tasks :: "world \<Rightarrow> world \<Rightarrow> ScheduledRefresh list" where
  "new_tasks w w' = map (\<lambda>a. heap w' ! a) (drop (length (schedules w)) (schedules w'))"

definition new_timers :: "world \<Rightarrow> world \<Rightarrow> (nat \<times> int) list" where
  "new_timers w w' = drop (length (timers w)) (timers w')"

text \<open>
  Mutual exclusion: no two allocated tasks of one subscription are in progress. It is stated
  over all objects, listed or not. \<open>all_listed\<close> says that the schedule list still refers
  to every object allocated so far, which is the case until the list is reset.
\<close>

definition exclusive :: "world \<Rightarrow> bool" where
  "exclusive w \<longleftrightarrow>
     (\<forall>a < length (heap w). \<forall>b < length (heap w).
        inProgress (heap w ! a) \<and> inProgress (heap w ! b) \<and>
        subscriptionId (heap w ! a) = subscriptionId (heap w ! b) \<longrightarrow> a = b)"

definition all_listed :: "world \<Rightarrow> bool" where
  "all_listed w \<longleftrightarrow> set (schedules w) = {..<length (heap w)}"

definition is_reset :: "event \<Rightarrow> bool" where
  "is_reset e \<longleftrightarrow> e = Call_clearSchedules \<or> e = Call_clearStoredData"

definition excl_inv :: "world \<Rightarrow> bool" where
  "excl_inv w \<longleftrightarrow> exclusive w \<and> all_listed w"

text \<open>
  \<open>execution_fails a e w\<close>: the event \<open>e\<close>, in state \<open>w\<close>, makes the execution of task
  \<open>a\<close> fail, that is, it runs the \<open>catch\<close> block of the callback of \<open>a\<close>. Either the
  reply to the request of the suspended callback is a failure, or the timer fires, the
  callback passes its two checks and the lookup raises before any request is sent.
\<close>

definition failed_reply :: "purchases_reply \<Rightarrow> bool" where
  "failed_reply reply = (case reply of PurchasesOk ps ks \<Rightarrow> False | _ \<Rightarrow> True)"

definition raises :: "started \<Rightarrow> bool" where
  "raises r = (case r of Thrown e \<Rightarrow> True | _ \<Rightarrow> False)"

definition execution_fails :: "nat \<Rightarrow> event \<Rightarrow> world \<Rightarrow> bool" where
  "execution_fails a e w =
     (case e of
        Reply b reply \<Rightarrow> b = a \<and> a \<in> set (awaiting w) \<and> failed_reply reply
      | Fire b \<Rightarrow>
          b = a \<and>
          (case map_of (timers w) a of None \<Rightarrow> False | Some due \<Rightarrow> due \<le> now w) \<and>
          \<not> completed (heap w ! a) \<and>
          \<not> list_ex (\<lambda>b. subscriptionId (heap w ! b) = subscriptionId (heap w ! a)
                             \<and> inProgress (heap w ! b)) (schedules w) \<and>
          raises (fst (getPurchases_start (Some (subscriptionId (heap w ! a))) None w))
      | _ \<Rightarrow> False)"

section \<open>Properties of the credential and identity store\<close>

lemma truthy_simps [simp]: "truthy None = False" "truthy (Some s) = (s \<noteq> [])"
  by (simp_all add: truthy_def)

text \<open>
  Claim C7 says that the stored subscription pointer is never overwritten by storing
  further credentials. \<open>_storeAccessKey\<close> calls \<open>_setSubscriptionId\<close> for every id that
  starts with \<open>sub_\<close>, without looking at the pointer: storing a key for \<open>sub_2\<close> after one
  for \<open>sub_1\<close> moves the pointer from \<open>sub_1\<close> to \<open>sub_2\<close>.
\<close>

theorem storeAccessKey_overwrites_pointer_counterexample:
  "iaptic_subscription_id (storeAccessKey ''sub_1'' ''k1'' (init 0)) = Some ''sub_1'' \<and>
   iaptic_subscription_id
     (storeAccessKey ''sub_2'' ''k2'' (storeAccessKey ''sub_1'' ''k1'' (init 0)))
     \<noteq> iaptic_subscription_id (storeAccessKey ''sub_1'' ''k1'' (init 0))"
  by (simp add: storeAccessKey_def setSubscriptionId_def getStoredAccessKeys_def startsWith_def
      init_def)

text \<open>
  Claim C7, amended: storing a credential for an id that starts with \<open>sub_\<close> always sets
  the subscription pointer to that id, whatever it was before; storing one for any other id
  leaves the pointer as it is; \<open>clearStoredData\<close> removes it.
\<close>

theorem storeAccessKey_subscription_pointer:
  "iaptic_subscription_id (storeAccessKey i k w)
     = (if startsWith i ''sub_'' then Some i else iaptic_subscription_id w) \<and>
   iaptic_subscription_id (clearStoredData w) = None"
  by (simp add: storeAccessKey_def setSubscriptionId_def getStoredAccessKeys_def
      clearStoredData_def clearSchedules_def Let_def)

theorem storeAccessKey_subscription_pointer_witness:
  "iaptic_subscription_id
     (storeAccessKey ''sub_2'' ''k2'' (storeAccessKey ''cs_1'' ''k1'' (init 0)))
     = Some ''sub_2'' \<and>
   iaptic_subscription_id (storeAccessKey ''cs_1'' ''k1'' (init 0)) = None"
  using storeAccessKey_subscription_pointer
          [of "''sub_2''" "''k2''" "storeAccessKey ''cs_1'' ''k1'' (init 0)"]
        storeAccessKey_subscription_pointer [of "''cs_1''" "''k1''" "init 0"]
  by (simp add: startsWith_def init_def)

text \<open>
  Claim C8: \<open>getPurchases\<close> called without an id, when neither a subscription id nor a
  session id is stored, returns the empty list; it issues no request (the state, with its
  request log, is unchanged) and raises nothing. This holds whether or not an access key is
  passed.
\<close>

theorem getPurchases_without_id:
  assumes "\<not> truthy i" and "\<not> truthy (getSubscriptionId w)" and "\<not> truthy (getSessionId w)"
  shows "getPurchases_start i accessKey w = (Returned [], w)"
  using assms by (simp add: getPurchases_start_def js_or_def Let_def)

theorem getPurchases_without_id_witness:
  "\<not> truthy None \<and> \<not> truthy (getSubscriptionId (init 0)) \<and> \<not> truthy (getSessionId (init 0)) \<and>
   getPurchases_start None None (init 0) = (Returned [], init 0)"
  using getPurchases_without_id [of None "init 0" None]
  by (simp add: getSubscriptionId_def getSessionId_def init_def)

lemma truthy_key_simps [simp]:
  "truthy_key None = False"
  "truthy_key (Some (Key s)) = (s \<noteq> [])"
  "truthy_key (Some (Inherited n)) = True"
  by (simp_all add: truthy_key_def)

text \<open>
  For an id that is given (not empty), has no entry in the stored credential map and is not
  a name every object inherits, \<open>getAccessKey\<close> returns the key stored for the current
  session id when there is one, and it returns \<open>null\<close> only when the current session id
  has no stored key. An empty string stored as a key is falsy and counts as no key.
\<close>

lemma getAccessKey_session_fallback_own:
  assumes "i \<noteq> []" and "iaptic_access_keys w i = None" and "\<not> inherited i"
  shows "(\<forall>sid k. getSessionId w = Some sid \<and> iaptic_access_keys w sid = Some k \<and> k \<noteq> []
            \<longrightarrow> getAccessKey (Some i) w = Some (Key k)) \<and>
         (getAccessKey (Some i) w = None
            \<longrightarrow> (\<forall>sid. getSessionId w = Some sid \<longrightarrow> \<not> truthy (iaptic_access_keys w sid)))"
  using assms
  by (auto simp add: getAccessKey_def property_def getStoredAccessKeys_def Let_def
      split: option.splits if_splits)

text \<open>
  Claim C10 says that for every id without an entry in the stored credential map
  \<open>getAccessKey\<close> returns the key stored for the current session id when there is one.
  The lookup \<open>keys[id]\<close> also finds what the credential object inherits: with the session
  key \<open>k1\<close> stored for \<open>cs_1\<close>, the id \<open>constructor\<close> has no entry, and the result is the
  inherited function, neither the session key nor \<open>null\<close>. For the id \<open>sub_9\<close> the
  result is the session key.
\<close>

theorem getAccessKey_inherited_name:
  "iaptic_access_keys (checkout_done (Some ''cs_1'') (Some ''k1'') (init 0)) ''constructor'' = None \<and>
   getSessionId (checkout_done (Some ''cs_1'') (Some ''k1'') (init 0)) = Some ''cs_1'' \<and>
   iaptic_access_keys (checkout_done (Some ''cs_1'') (Some ''k1'') (init 0)) ''cs_1'' = Some ''k1'' \<and>
   getAccessKey (Some ''constructor'') (checkout_done (Some ''cs_1'') (Some ''k1'') (init 0))
     = Some (Inherited ''constructor'') \<and>
   getAccessKey (Some ''sub_9'') (checkout_done (Some ''cs_1'') (Some ''k1'') (init 0))
     = Some (Key ''k1'')"
  by (simp add: getAccessKey_def property_def inherited_def assign_def checkout_done_def
      setSessionId_def storeAccessKey_def startsWith_def getStoredAccessKeys_def
      getSessionId_def str_of_def init_def Let_def)

section \<open>Properties of the product catalog cache\<close>

text \<open>
  Claim C6 says that \<open>getProducts\<close> fetches again once the cache is older than 60 seconds.
  \<open>getProducts\<close> returns the cached list whenever there is one and never looks at
  \<open>fetchedAt\<close>: 60001 ms after the fetch, a second call issues no request.
\<close>

theorem getProducts_stale_cache_counterexample:
  "requests (snd (getProducts 0 (PricesOk [Product ''p1'']) (init 0))) = [GetPrices] \<and>
   fetchedAt (the (iaptic_products (snd (getProducts 0 (PricesOk [Product ''p1'']) (init 0)))))
     = 0 \<and>
   requests (snd (getProducts 0 (PricesOk [Product ''p1''])
       (advance 60001 (snd (getProducts 0 (PricesOk [Product ''p1'']) (init 0)))))) = [GetPrices]"
  by (simp add: getProducts_def refreshProducts_def getCachedProducts_def setCachedProducts_def
      advance_def init_def)

text \<open>
  Claim C6, amended: after a successful fetch on a cold cache, a later \<open>getProducts\<close>
  issues no further fetch and returns the cached list however much time \<open>d\<close> has passed;
  \<open>refreshProducts\<close> is what applies the 60 second window, fetching again exactly when
  \<open>d\<close> is at least 60000 ms.
\<close>

theorem getProducts_serves_cache:
  assumes "iaptic_products w = None"
  shows "requests (snd (getProducts l2 r2 (advance d (snd (getProducts l1 (PricesOk ps) w)))))
           = requests w @ [GetPrices] \<and>
         fst (getProducts l2 r2 (advance d (snd (getProducts l1 (PricesOk ps) w)))) = Inr ps \<and>
         (requests (snd (refreshProducts l2 r2 (advance d (snd (getProducts l1 (PricesOk ps) w)))))
            = requests w @ [GetPrices] \<longleftrightarrow> d < 60000)"
  using assms
  by (simp add: getProducts_def refreshProducts_def getCachedProducts_def setCachedProducts_def
      advance_def Let_def split: prices_reply.splits)

theorem getProducts_serves_cache_witness:
  "iaptic_products (init 0) = None \<and>
   requests (snd (getProducts 0 PricesRejected
       (advance 90000 (snd (getProducts 5 (PricesOk [Product ''p1'']) (init 0)))))) = [GetPrices] \<and>
   requests (snd (refreshProducts 0 PricesRejected
       (advance 90000 (snd (getProducts 5 (PricesOk [Product ''p1'']) (init 0)))))) \<noteq> [GetPrices]"
  using getProducts_serves_cache [of "init 0" 0 PricesRejected 90000 5 "[Product ''p1'']"]
  by (simp add: init_def)

section \<open>The task id determines the instant\<close>

lemma digit_val_digit: "digit_val (digit n) = n mod 10"
proof -
  have "n mod 10 < 10" by simp
  then have "n mod 10 \<in> {0, 1, 2, 3, 4, 5, 6, 7, 8, 9}"
    by (simp only: insert_iff empty_iff) arith
  then show ?thesis
    by (auto simp add: digit_def digit_val_def)
qed

lemma digit_not_minus: "digit n \<noteq> CHR ''-''"
proof -
  have "n mod 10 < 10" by simp
  then have "n mod 10 \<in> {0, 1, 2, 3, 4, 5, 6, 7, 8, 9}"
    by (simp only: insert_iff empty_iff) arith
  then show ?thesis
    by (auto simp add: digit_def)
qed

lemma read_nat_snoc: "read_nat (s @ [c]) = 10 * read_nat s + digit_val c"
  by (simp add: read_nat_def)

lemma read_show_nat: "read_nat (show_nat n) = n"
proof (induction n rule: show_nat.induct)
  case (1 n)
  show ?case
  proof (cases "n < 10")
    case True
    then show ?thesis
      by (subst show_nat.simps) (simp add: read_nat_def digit_val_digit)
  next
    case False
    with 1 have "read_nat (show_nat (n div 10)) = n div 10" by simp
    with False show ?thesis
      by (subst show_nat.simps) (simp add: read_nat_snoc digit_val_digit)
  qed
qed

lemma show_nat_inj: "show_nat m = show_nat n \<Longrightarrow> m = n"
  by (metis read_show_nat)

lemma show_nat_not_Nil: "show_nat n \<noteq> []"
  by (subst show_nat.simps) simp

lemma hd_show_nat: "hd (show_nat n) \<noteq> CHR ''-''"
proof (induction n rule: show_nat.induct)
  case (1 n)
  show ?case
  proof (cases "n < 10")
    case True
    then show ?thesis by (subst show_nat.simps) (simp add: digit_not_minus)
  next
    case False
    from False 1 have "hd (show_nat (n div 10)) \<noteq> CHR ''-''" by simp
    with False show_nat_not_Nil [of "n div 10"] show ?thesis
      by (subst show_nat.simps) simp
  qed
qed

lemma show_nat_not_minus: "show_nat n \<noteq> CHR ''-'' # s"
proof
  assume "show_nat n = CHR ''-'' # s"
  then have "hd (show_nat n) = CHR ''-''" by simp
  with hd_show_nat show False by blast
qed

lemma show_int_inj:
  assumes eq: "show_int i = show_int j"
  shows "i = j"
proof (cases "i < 0")
  case True
  note i = this
  show ?thesis
  proof (cases "j < 0")
    case True
    with i eq have "show_nat (nat (- i)) = show_nat (nat (- j))" by (simp add: show_int_def)
    then have "nat (- i) = nat (- j)" by (rule show_nat_inj)
    with i True show ?thesis by simp
  next
    case False
    with i eq have "show_nat (nat j) = CHR ''-'' # show_nat (nat (- i))"
      by (simp add: show_int_def)
    with show_nat_not_minus show ?thesis by blast
  qed
next
  case False
  note i = this
  show ?thesis
  proof (cases "j < 0")
    case True
    with i eq have "show_nat (nat i) = CHR ''-'' # show_nat (nat (- j))"
      by (simp add: show_int_def)
    with show_nat_not_minus show ?thesis by blast
  next
    case False
    with i eq have "show_nat (nat i) = show_nat (nat j)" by (simp add: show_int_def)
    then have "nat i = nat j" by (rule show_nat_inj)
    with i False show ?thesis by simp
  qed
qed

lemma mk_id_inj: "mk_id s t = mk_id s u \<Longrightarrow> t = u"
  by (simp add: mk_id_def show_int_inj)

section \<open>Lemmas about the scheduler\<close>

lemma scheduleRefresh_old: "has_id w (mk_id s t) \<Longrightarrow> scheduleRefresh s t r w = w"
  by (simp add: scheduleRefresh_def has_id_def)

lemma scheduleRefresh_new:
  "\<not> has_id w (mk_id s t) \<Longrightarrow>
   scheduleRefresh s t r w =
     w\<lparr>heap := heap w @ [\<lparr> id_sr = mk_id s t, subscriptionId = s, scheduledAt = t,
                            completed = False, inProgress = False, reason = r \<rparr>],
       schedules := schedules w @ [length (heap w)],
       timers := timers w @
         (if now w < t then [(length (heap w), now w + timeout_ms (t - now w))] else [])\<rparr>"
  by (simp add: scheduleRefresh_def has_id_def setTimeout_sr_def Let_def)

lemma has_id_iff: "has_id w i \<longleftrightarrow> (\<exists>b \<in> set (schedules w). id_sr (heap w ! b) = i)"
  by (simp add: has_id_def list_ex_iff)

lemma has_id_scheduleRefresh:
  assumes "\<forall>a \<in> set (schedules w). a < length (heap w)"
  shows "has_id (scheduleRefresh s t r w) (mk_id s t)"
proof (cases "has_id w (mk_id s t)")
  case True
  then show ?thesis by (simp add: scheduleRefresh_old)
next
  case False
  then show ?thesis
    by (simp add: scheduleRefresh_new has_id_iff)
qed

lemma scheduleRefresh_twice:
  "scheduleRefresh s t r2 (scheduleRefresh s t r1 w) = scheduleRefresh s t r1 w"
proof (cases "has_id w (mk_id s t)")
  case True
  then show ?thesis by (simp add: scheduleRefresh_old)
next
  case False
  have "has_id (scheduleRefresh s t r1 w) (mk_id s t)"
    using False by (simp add: scheduleRefresh_new has_id_iff)
  then show ?thesis by (rule scheduleRefresh_old)
qed

lemma inv_scheduleRefresh:
  assumes "scheduler_inv w"
  shows "scheduler_inv (scheduleRefresh s t r w)"
proof (cases "has_id w (mk_id s t)")
  case True
  with assms show ?thesis by (simp add: scheduleRefresh_old)
next
  case False
  from assms have valid: "\<forall>a \<in> set (schedules w). a < length (heap w)"
    by (simp add: scheduler_inv_def)
  have map_eq: "map (\<lambda>a. id_sr ((heap w @ [x]) ! a)) (schedules w)
      = map (\<lambda>a. id_sr (heap w ! a)) (schedules w)" for x
    using valid by (simp add: nth_append)
  have fresh: "mk_id s t \<notin> (\<lambda>a. id_sr (heap w ! a)) ` set (schedules w)"
    using False by (auto simp add: has_id_iff)
  show ?thesis
    using assms fresh
    apply (simp add: scheduleRefresh_new [OF False])
    apply (simp add: scheduler_inv_def timer_addrs_def map_eq)
    apply (auto simp add: nth_append less_Suc_eq)
    done
qed


lemma extends_refl: "extends w w"
  by (simp add: extends_def)

lemma extends_trans:
  assumes "extends w1 w2" and "extends w2 w3"
  shows "extends w1 w3"
proof -
  have len: "length (heap w1) \<le> length (heap w2)" "length (heap w2) \<le> length (heap w3)"
    using assms by (simp_all add: extends_def)
  have nth: "heap w3 ! a = heap w1 ! a" if "a < length (heap w1)" for a
  proof -
    from that len have "a < length (heap w2)" by simp
    with assms that show ?thesis by (simp add: extends_def)
  qed
  have tm: "a \<in> timer_addrs w1 \<or> length (heap w1) \<le> a" if "a \<in> timer_addrs w3" for a
  proof -
    from that assms(2) have "a \<in> timer_addrs w2 \<or> length (heap w2) \<le> a"
      by (simp add: extends_def)
    with assms(1) len show ?thesis by (auto simp add: extends_def)
  qed
  from assms len nth tm show ?thesis by (simp add: extends_def)
qed

lemma extends_scheduleRefresh: "extends w (scheduleRefresh s t r w)"
proof (cases "has_id w (mk_id s t)")
  case True
  then show ?thesis by (simp add: scheduleRefresh_old extends_refl)
next
  case False
  then show ?thesis
    by (auto simp add: scheduleRefresh_new extends_def timer_addrs_def nth_append)
qed

lemma schedulePurchaseRefreshes_unfold:
  "schedulePurchaseRefreshes p w =
     (case Option.bind (expirationDate p) new_Date of
        None \<Rightarrow> w
      | Some T \<Rightarrow>
          (let w1 = (if valid_time (T - 10000) \<and> T - 10000 > now w
                     then scheduleRefresh (purchaseId p) (T - 10000) ''pre-expiration'' w else w)
           in if valid_time (T + 10000) \<and> T + 10000 > now w1
              then scheduleRefresh (purchaseId p) (T + 10000) ''post-expiration'' w1 else w1))"
proof (cases "Option.bind (expirationDate p) new_Date")
  case None
  show ?thesis
    unfolding schedulePurchaseRefreshes_def Let_def None by simp
next
  case (Some T)
  show ?thesis
    unfolding schedulePurchaseRefreshes_def Let_def Some by (simp add: new_Date_def)
qed

lemma inv_schedulePurchaseRefreshes:
  "scheduler_inv w \<Longrightarrow> scheduler_inv (schedulePurchaseRefreshes p w)"
  by (simp add: schedulePurchaseRefreshes_unfold Let_def inv_scheduleRefresh split: option.splits)

lemma extends_schedulePurchaseRefreshes: "extends w (schedulePurchaseRefreshes p w)"
  by (auto simp add: schedulePurchaseRefreshes_unfold Let_def extends_refl extends_scheduleRefresh
      split: option.splits intro: extends_trans [OF extends_scheduleRefresh extends_scheduleRefresh])

lemma scheduler_fields_storeAccessKey [simp]:
  "heap (storeAccessKey i k w) = heap w"
  "schedules (storeAccessKey i k w) = schedules w"
  "timers (storeAccessKey i k w) = timers w"
  "awaiting (storeAccessKey i k w) = awaiting w"
  "lookups (storeAccessKey i k w) = lookups w"
  "now (storeAccessKey i k w) = now w"
  "requests (storeAccessKey i k w) = requests w"
  by (simp_all add: storeAccessKey_def setSubscriptionId_def Let_def)

lemma inv_storeAccessKey: "scheduler_inv (storeAccessKey i k w) = scheduler_inv w"
  by (simp add: scheduler_inv_def timer_addrs_def)

lemma extends_storeAccessKey: "extends w (storeAccessKey i k w)"
  by (simp add: extends_def timer_addrs_def)

lemma inv_store_all:
  "scheduler_inv w \<Longrightarrow>
   scheduler_inv (foldl (\<lambda>w (subId, newKey). storeAccessKey subId newKey w) w ks)"
  by (induction ks arbitrary: w) (auto simp add: inv_storeAccessKey)

lemma extends_store_all:
  "extends w (foldl (\<lambda>w (subId, newKey). storeAccessKey subId newKey w) w ks)"
proof (induction ks arbitrary: w)
  case Nil
  show ?case by (simp add: extends_refl)
next
  case (Cons x ks)
  obtain i k where x: "x = (i, k)" by (cases x)
  show ?case
    using extends_trans [OF extends_storeAccessKey Cons.IH] by (simp add: x)
qed

lemma inv_schedule_all:
  "scheduler_inv w \<Longrightarrow>
   scheduler_inv (foldl (\<lambda>w purchase. schedulePurchaseRefreshes purchase w) w ps)"
  by (induction ps arbitrary: w) (auto simp add: inv_schedulePurchaseRefreshes)

lemma extends_schedule_all:
  "extends w (foldl (\<lambda>w purchase. schedulePurchaseRefreshes purchase w) w ps)"
proof (induction ps arbitrary: w)
  case Nil
  show ?case by (simp add: extends_refl)
next
  case (Cons p ps)
  show ?case
    using extends_trans [OF extends_schedulePurchaseRefreshes Cons.IH] by simp
qed

lemma inv_getPurchases_finish:
  "scheduler_inv w \<Longrightarrow> scheduler_inv (snd (getPurchases_finish reply w))"
  by (cases reply) (simp_all add: getPurchases_finish_def Let_def inv_store_all inv_schedule_all)

lemma extends_getPurchases_finish: "extends w (snd (getPurchases_finish reply w))"
  by (cases reply)
    (simp_all add: getPurchases_finish_def Let_def extends_refl
      extends_trans [OF extends_schedule_all extends_store_all])

lemma inv_changePlan_finish:
  "scheduler_inv w \<Longrightarrow> scheduler_inv (snd (changePlan_finish reply w))"
  by (cases reply)
    (simp_all add: changePlan_finish_def Let_def inv_store_all inv_schedulePurchaseRefreshes
      inv_scheduleRefresh)

lemma extends_changePlan_finish: "extends w (snd (changePlan_finish reply w))"
  by (cases reply)
    (simp_all add: changePlan_finish_def Let_def extends_refl
      extends_trans [OF extends_store_all
        extends_trans [OF extends_schedulePurchaseRefreshes extends_scheduleRefresh]])


lemma inv_init: "scheduler_inv (init t)"
  by (simp add: scheduler_inv_def init_def timer_addrs_def)

lemma inv_advance: "scheduler_inv (advance d w) = scheduler_inv w"
  by (simp add: scheduler_inv_def advance_def timer_addrs_def)

lemma inv_clearSchedules: "scheduler_inv w \<Longrightarrow> scheduler_inv (clearSchedules w)"
  by (simp add: scheduler_inv_def clearSchedules_def timer_addrs_def)

lemma inv_clearStoredData: "scheduler_inv w \<Longrightarrow> scheduler_inv (clearStoredData w)"
  by (simp add: scheduler_inv_def clearStoredData_def clearSchedules_def timer_addrs_def)

lemma inv_checkout_done: "scheduler_inv (checkout_done i k w) = scheduler_inv w"
  by (simp add: checkout_done_def setSessionId_def Let_def inv_storeAccessKey)
    (simp add: scheduler_inv_def timer_addrs_def)

lemma fields_getPurchases_start [simp]:
  "heap (snd (getPurchases_start i k w)) = heap w"
  "schedules (snd (getPurchases_start i k w)) = schedules w"
  "timers (snd (getPurchases_start i k w)) = timers w"
  "awaiting (snd (getPurchases_start i k w)) = awaiting w"
  "lookups (snd (getPurchases_start i k w)) = lookups w"
  "now (snd (getPurchases_start i k w)) = now w"
  by (simp_all add: getPurchases_start_def Let_def split: option.splits)

lemma inv_requests [simp]: "scheduler_inv (w\<lparr>requests := x\<rparr>) = scheduler_inv w"
  by (simp add: scheduler_inv_def timer_addrs_def)

lemma inv_lookups:
  "scheduler_inv w \<Longrightarrow> a < length (heap w) \<Longrightarrow> scheduler_inv (w\<lparr>lookups := lookups w @ [a]\<rparr>)"
  by (simp add: scheduler_inv_def timer_addrs_def)

lemma inv_getPurchases_start:
  "scheduler_inv (snd (getPurchases_start i k w)) = scheduler_inv w"
  by (simp add: scheduler_inv_def timer_addrs_def)

lemma inv_refreshProducts: "scheduler_inv (snd (refreshProducts l r w)) = scheduler_inv w"
  by (simp add: refreshProducts_def getCachedProducts_def setCachedProducts_def Let_def
      scheduler_inv_def timer_addrs_def split: option.splits prices_reply.splits)

lemma inv_getProducts: "scheduler_inv (snd (getProducts l r w)) = scheduler_inv w"
  by (simp add: getProducts_def getCachedProducts_def inv_refreshProducts split: option.splits)

lemma inv_set_inProgress: "scheduler_inv w \<Longrightarrow> scheduler_inv (set_inProgress a b w)"
proof -
  assume inv: "scheduler_inv w"
  have nth: "id_sr ((heap w)[a := (heap w ! a)\<lparr>inProgress := b\<rparr>] ! c) = id_sr (heap w ! c)"
            "completed ((heap w)[a := (heap w ! a)\<lparr>inProgress := b\<rparr>] ! c) = completed (heap w ! c)"
    for c
    by (cases "a < length (heap w)"; cases "c = a"; simp add: list_update_beyond)+
  from inv show ?thesis
    by (simp add: scheduler_inv_def set_inProgress_def timer_addrs_def nth)
qed

lemma inv_set_completed:
  assumes "scheduler_inv w" and "a \<notin> set (awaiting w)"
  shows "scheduler_inv (set_completed a b w)"
proof -
  have nth: "id_sr ((heap w)[a := (heap w ! a)\<lparr>completed := b\<rparr>] ! c) = id_sr (heap w ! c)" for c
    by (cases "a < length (heap w)"; cases "c = a"; simp add: list_update_beyond)
  have nth2: "c \<noteq> a \<Longrightarrow>
      completed ((heap w)[a := (heap w ! a)\<lparr>completed := b\<rparr>] ! c) = completed (heap w ! c)" for c
    by simp
  have nth3: "completed ((heap w)[a := (heap w ! a)\<lparr>completed := b\<rparr>] ! c) = completed (heap w ! c)"
    if "c \<in> set (awaiting w)" for c
    using that assms(2) by (intro nth2) auto
  from assms show ?thesis
    by (simp add: scheduler_inv_def set_completed_def timer_addrs_def nth nth3)
qed

lemma awaiting_set_inProgress [simp]: "awaiting (set_inProgress a b w) = awaiting w"
  by (simp add: set_inProgress_def)

lemma awaiting_set_completed [simp]: "awaiting (set_completed a b w) = awaiting w"
  by (simp add: set_completed_def)

lemma awaiting_scheduleRefresh [simp]: "awaiting (scheduleRefresh s t r w) = awaiting w"
  using extends_scheduleRefresh [of w s t r] by (simp add: extends_def)

lemma inv_refresh_succeeded:
  "scheduler_inv w \<Longrightarrow> a \<notin> set (awaiting w) \<Longrightarrow> scheduler_inv (refresh_succeeded a w)"
  by (simp add: refresh_succeeded_def inv_set_inProgress inv_set_completed)

lemma inv_refresh_failed: "scheduler_inv w \<Longrightarrow> scheduler_inv (refresh_failed a w)"
  by (simp add: refresh_failed_def Let_def inv_set_inProgress inv_scheduleRefresh)


lemma inv_await:
  assumes "scheduler_inv w" and "a < length (heap w)" and "\<not> completed (heap w ! a)"
    and "a \<notin> timer_addrs w"
  shows "scheduler_inv (w\<lparr>awaiting := awaiting w @ [a]\<rparr>)"
  using assms by (simp add: scheduler_inv_def timer_addrs_def)

lemma heap_set_inProgress:
  "length (heap (set_inProgress a b w)) = length (heap w)"
  "completed (heap (set_inProgress a b w) ! c) = completed (heap w ! c)"
  "subscriptionId (heap (set_inProgress a b w) ! c) = subscriptionId (heap w ! c)"
  "reason (heap (set_inProgress a b w) ! c) = reason (heap w ! c)"
  "id_sr (heap (set_inProgress a b w) ! c) = id_sr (heap w ! c)"
  "scheduledAt (heap (set_inProgress a b w) ! c) = scheduledAt (heap w ! c)"
  by (cases "a < length (heap w)"; cases "c = a";
      simp add: set_inProgress_def list_update_beyond)+

lemma other_set_inProgress [simp]:
  "schedules (set_inProgress a b w) = schedules w"
  "timers (set_inProgress a b w) = timers w"
  "lookups (set_inProgress a b w) = lookups w"
  "now (set_inProgress a b w) = now w"
  "requests (set_inProgress a b w) = requests w"
  by (simp_all add: set_inProgress_def)

lemma inv_timer_callback:
  assumes inv: "scheduler_inv w" and a: "a < length (heap w)" "a \<notin> set (awaiting w)"
    "a \<notin> timer_addrs w"
  shows "scheduler_inv (timer_callback a w)"
proof -
  let ?sch = "heap w ! a"
  let ?w2 = "(set_inProgress a True w)\<lparr>lookups := lookups w @ [a]\<rparr>"
  obtain r w3 where start: "getPurchases_start (Some (subscriptionId ?sch)) None ?w2 = (r, w3)"
    by (cases "getPurchases_start (Some (subscriptionId ?sch)) None ?w2")
  then have w3: "w3 = snd (getPurchases_start (Some (subscriptionId ?sch)) None ?w2)" by simp
  have inv2: "scheduler_inv ?w2"
    using inv_lookups [OF inv_set_inProgress [OF inv, of a True], of a] a(1)
    by (simp add: heap_set_inProgress)
  then have inv3: "scheduler_inv w3" by (simp only: w3 inv_getPurchases_start)
  have f3: "awaiting w3 = awaiting w" "timers w3 = timers w" "heap w3 = heap (set_inProgress a True w)"
    by (simp_all add: w3)
  show ?thesis
  proof (cases "completed ?sch \<or> list_ex (\<lambda>b. subscriptionId (heap w ! b) = subscriptionId ?sch
                               \<and> inProgress (heap w ! b)) (schedules w)")
    case True
    with inv show ?thesis by (auto simp add: timer_callback_def Let_def)
  next
    case False
    then have tc: "timer_callback a w =
        (case r of Returned ps \<Rightarrow> refresh_succeeded a w3
                 | Thrown e \<Rightarrow> refresh_failed a w3
                 | Fetching \<Rightarrow> w3\<lparr>awaiting := awaiting w3 @ [a]\<rparr>)"
      by (simp add: timer_callback_def Let_def start)
    show ?thesis
    proof (cases r)
      case (Returned ps)
      with tc inv3 a f3 show ?thesis by (simp add: inv_refresh_succeeded)
    next
      case (Thrown e)
      with tc inv3 show ?thesis by (simp add: inv_refresh_failed)
    next
      case Fetching
      have "scheduler_inv (w3\<lparr>awaiting := awaiting w3 @ [a]\<rparr>)"
      proof (rule inv_await [OF inv3])
        show "a < length (heap w3)" using a by (simp add: f3 heap_set_inProgress)
        show "\<not> completed (heap w3 ! a)" using False by (simp add: f3 heap_set_inProgress)
        show "a \<notin> timer_addrs w3" using a by (simp add: timer_addrs_def f3)
      qed
      with tc Fetching show ?thesis by simp
    qed
  qed
qed

lemma inv_drop_timer:
  assumes "scheduler_inv w"
  shows "scheduler_inv (w\<lparr>timers := filter (\<lambda>p. fst p \<noteq> a) (timers w)\<rparr>)"
  using assms by (auto simp add: scheduler_inv_def timer_addrs_def)

lemma inv_drop_awaiting:
  assumes "scheduler_inv w"
  shows "scheduler_inv (w\<lparr>awaiting := removeAll a (awaiting w)\<rparr>)"
  using assms by (auto simp add: scheduler_inv_def timer_addrs_def)

lemma awaiting_getPurchases_finish [simp]:
  "awaiting (snd (getPurchases_finish reply w)) = awaiting w"
  using extends_getPurchases_finish [of w reply] by (simp add: extends_def)

lemma inv_reply_arrives:
  assumes inv: "scheduler_inv w" and a: "a \<notin> set (awaiting w)"
  shows "scheduler_inv (reply_arrives a reply w)"
proof -
  obtain r w1 where fin: "getPurchases_finish reply w = (r, w1)"
    by (cases "getPurchases_finish reply w")
  then have w1: "w1 = snd (getPurchases_finish reply w)" by simp
  have inv1: "scheduler_inv w1" using inv by (simp add: w1 inv_getPurchases_finish)
  have aw: "a \<notin> set (awaiting w1)" using a by (simp add: w1)
  show ?thesis
    by (cases r) (simp_all add: reply_arrives_def fin inv1 aw inv_refresh_failed
        inv_refresh_succeeded)
qed

lemma inv_step:
  assumes "scheduler_inv w" and "step e w = Some w'"
  shows "scheduler_inv w'"
proof (cases e)
  case (Advance d)
  with assms show ?thesis by (auto simp add: inv_advance)
next
  case (Fire a)
  from assms Fire obtain due where due: "map_of (timers w) a = Some due" "due \<le> now w"
    and w': "w' = timer_callback a (w\<lparr>timers := filter (\<lambda>p. fst p \<noteq> a) (timers w)\<rparr>)"
    by (auto split: option.splits if_splits)
  let ?w0 = "w\<lparr>timers := filter (\<lambda>p. fst p \<noteq> a) (timers w)\<rparr>"
  from due have mem: "a \<in> timer_addrs w"
    by (auto simp add: timer_addrs_def dest!: map_of_SomeD intro: rev_image_eqI)
  with assms(1) have lt: "a < length (heap w)" and na: "a \<notin> set (awaiting w)"
    by (auto simp add: scheduler_inv_def)
  have "scheduler_inv (timer_callback a ?w0)"
  proof (rule inv_timer_callback)
    show "scheduler_inv ?w0" using assms(1) by (rule inv_drop_timer)
    show "a < length (heap ?w0)" using lt by simp
    show "a \<notin> set (awaiting ?w0)" using na by simp
    show "a \<notin> timer_addrs ?w0" by (auto simp add: timer_addrs_def)
  qed
  with w' show ?thesis by simp
next
  case (Reply a reply)
  from assms Reply have w': "w' = reply_arrives a reply (w\<lparr>awaiting := removeAll a (awaiting w)\<rparr>)"
    by (auto split: if_splits)
  have "scheduler_inv (reply_arrives a reply (w\<lparr>awaiting := removeAll a (awaiting w)\<rparr>))"
    by (rule inv_reply_arrives) (simp_all add: inv_drop_awaiting assms(1))
  with w' show ?thesis by simp
next
  case (Call_scheduleRefresh s t r)
  with assms show ?thesis by (auto simp add: inv_scheduleRefresh)
next
  case Call_clearSchedules
  with assms show ?thesis by (auto simp add: inv_clearSchedules)
next
  case Call_clearStoredData
  with assms show ?thesis by (auto simp add: inv_clearStoredData)
next
  case (Checkout_done i k)
  with assms show ?thesis by (auto simp add: inv_checkout_done)
next
  case (Call_getPurchases i k)
  with assms show ?thesis by (auto simp add: inv_getPurchases_start)
next
  case (Done_getPurchases reply)
  with assms show ?thesis by (auto simp add: inv_getPurchases_finish)
next
  case (Done_changePlan reply)
  with assms show ?thesis by (auto simp add: inv_changePlan_finish)
next
  case (Call_getProducts l r)
  with assms show ?thesis by (auto simp add: inv_getProducts)
next
  case (Call_refreshProducts l r)
  with assms show ?thesis by (auto simp add: inv_refreshProducts)
qed

lemma inv_run: "scheduler_inv w \<Longrightarrow> run es w = Some w' \<Longrightarrow> scheduler_inv w'"
proof (induction es arbitrary: w)
  case Nil
  then show ?case by simp
next
  case (Cons e es)
  then obtain w1 where "step e w = Some w1" "run es w1 = Some w'"
    by (auto split: option.splits)
  with Cons.IH Cons.prems(1) inv_step show ?case by blast
qed

lemma inv_reachable: "run es (init t) = Some w \<Longrightarrow> scheduler_inv w"
  using inv_run [OF inv_init] .

lemma extends_touches: "extends w w' \<Longrightarrow> touches b w w'"
  by (auto simp add: extends_def touches_def)

lemma touches_trans:
  assumes "touches b w1 w2" and "touches b w2 w3"
  shows "touches b w1 w3"
proof -
  have len: "length (heap w1) \<le> length (heap w2)" "length (heap w2) \<le> length (heap w3)"
    using assms by (simp_all add: touches_def)
  have nth: "heap w3 ! c = heap w1 ! c" if "c < length (heap w1)" "c \<noteq> b" for c
  proof -
    from that len have "c < length (heap w2)" by simp
    with assms that show ?thesis by (simp add: touches_def)
  qed
  have tm: "c \<in> timer_addrs w1 \<or> length (heap w1) \<le> c" if "c \<in> timer_addrs w3" for c
  proof -
    from that assms(2) have "c \<in> timer_addrs w2 \<or> length (heap w2) \<le> c"
      by (simp add: touches_def)
    with assms(1) len show ?thesis by (auto simp add: touches_def)
  qed
  have aw: "set (awaiting w3) \<subseteq> insert b (set (awaiting w1))"
    using assms by (auto simp add: touches_def)
  have lk: "\<forall>c. c \<noteq> b \<longrightarrow> count_list (lookups w3) c = count_list (lookups w1) c"
    using assms by (simp add: touches_def)
  from len nth tm aw lk show ?thesis by (simp add: touches_def)
qed

lemma touches_set_inProgress: "touches b w (set_inProgress b x w)"
  by (auto simp add: touches_def set_inProgress_def timer_addrs_def)

lemma touches_set_completed: "touches b w (set_completed b x w)"
  by (auto simp add: touches_def set_completed_def timer_addrs_def)

lemma touches_refresh_succeeded: "touches b w (refresh_succeeded b w)"
  unfolding refresh_succeeded_def
  by (rule touches_trans [OF touches_set_completed touches_set_inProgress])

lemma touches_refresh_failed: "touches b w (refresh_failed b w)"
proof -
  have "touches b w (if \<not> startsWith (reason (heap w ! b)) ''retry-''
                then scheduleRefresh (subscriptionId (heap w ! b)) (now w + 30000)
                       (''retry-'' @ reason (heap w ! b)) w
                else w)" (is "touches b w ?w1")
    by (simp add: extends_touches extends_scheduleRefresh extends_refl)
  from touches_trans [OF this touches_set_inProgress]
  show ?thesis by (simp add: refresh_failed_def Let_def)
qed

lemma extends_getPurchases_start: "extends w (snd (getPurchases_start i k w))"
  by (simp add: extends_def timer_addrs_def)

lemma touches_timer_callback: "touches b w (timer_callback b w)"
proof -
  let ?sch = "heap w ! b"
  let ?w1 = "set_inProgress b True w"
  let ?w2 = "?w1\<lparr>lookups := lookups w @ [b]\<rparr>"
  obtain r w3 where start: "getPurchases_start (Some (subscriptionId ?sch)) None ?w2 = (r, w3)"
    by (cases "getPurchases_start (Some (subscriptionId ?sch)) None ?w2")
  then have w3: "w3 = snd (getPurchases_start (Some (subscriptionId ?sch)) None ?w2)" by simp
  have t1: "touches b w ?w1" by (rule touches_set_inProgress)
  have t2: "touches b ?w1 ?w2" by (auto simp add: touches_def timer_addrs_def)
  have t3: "touches b ?w2 w3"
    unfolding w3 by (rule extends_touches [OF extends_getPurchases_start])
  have t: "touches b w w3" by (rule touches_trans [OF touches_trans [OF t1 t2] t3])
  show ?thesis
  proof (cases "completed ?sch \<or> list_ex (\<lambda>c. subscriptionId (heap w ! c) = subscriptionId ?sch
                               \<and> inProgress (heap w ! c)) (schedules w)")
    case True
    have "touches b w w" by (rule extends_touches [OF extends_refl])
    with True show ?thesis by (auto simp add: timer_callback_def Let_def)
  next
    case False
    then have tc: "timer_callback b w =
        (case r of Returned ps \<Rightarrow> refresh_succeeded b w3
                 | Thrown e \<Rightarrow> refresh_failed b w3
                 | Fetching \<Rightarrow> w3\<lparr>awaiting := awaiting w3 @ [b]\<rparr>)"
      by (simp add: timer_callback_def Let_def start)
    show ?thesis
    proof (cases r)
      case (Returned ps)
      with tc touches_trans [OF t touches_refresh_succeeded] show ?thesis by simp
    next
      case (Thrown e)
      with tc touches_trans [OF t touches_refresh_failed] show ?thesis by simp
    next
      case Fetching
      have "touches b w3 (w3\<lparr>awaiting := awaiting w3 @ [b]\<rparr>)"
        by (auto simp add: touches_def timer_addrs_def)
      with tc Fetching touches_trans [OF t] show ?thesis by simp
    qed
  qed
qed

lemma touches_reply_arrives: "touches b w (reply_arrives b reply w)"
proof -
  obtain r w1 where fin: "getPurchases_finish reply w = (r, w1)"
    by (cases "getPurchases_finish reply w")
  then have w1: "w1 = snd (getPurchases_finish reply w)" by simp
  have t: "touches b w w1"
    unfolding w1 by (rule extends_touches [OF extends_getPurchases_finish])
  show ?thesis
    using touches_trans [OF t touches_refresh_succeeded] touches_trans [OF t touches_refresh_failed]
    by (cases r) (simp_all add: reply_arrives_def fin)
qed

lemma extends_misc:
  "extends w (advance d w)"
  "extends w (clearSchedules w)"
  "extends w (clearStoredData w)"
  "extends w (checkout_done i k w)"
  "extends w (snd (refreshProducts l r w))"
  "extends w (snd (getProducts l r w))"
  by (simp_all add: extends_def timer_addrs_def advance_def clearSchedules_def
      clearStoredData_def checkout_done_def setSessionId_def Let_def
      refreshProducts_def getProducts_def getCachedProducts_def setCachedProducts_def
      split: option.splits prices_reply.splits)

text \<open>An event either only allocates, or runs the callback of one task.\<close>

lemma step_touches:
  assumes "step e w = Some w'"
  shows "extends w w' \<or> (\<exists>b. (b \<in> timer_addrs w \<or> b \<in> set (awaiting w)) \<and> touches b w w')"
proof (cases e)
  case (Fire a)
  from assms Fire obtain due where due: "map_of (timers w) a = Some due"
    and w': "w' = timer_callback a (w\<lparr>timers := filter (\<lambda>p. fst p \<noteq> a) (timers w)\<rparr>)"
    by (auto split: option.splits if_splits)
  let ?w0 = "w\<lparr>timers := filter (\<lambda>p. fst p \<noteq> a) (timers w)\<rparr>"
  from due have mem: "a \<in> timer_addrs w"
    by (auto simp add: timer_addrs_def dest!: map_of_SomeD intro: rev_image_eqI)
  have "touches a w ?w0" by (auto simp add: touches_def timer_addrs_def)
  from touches_trans [OF this touches_timer_callback] w' mem show ?thesis by blast
next
  case (Reply a reply)
  from assms Reply have mem: "a \<in> set (awaiting w)"
    and w': "w' = reply_arrives a reply (w\<lparr>awaiting := removeAll a (awaiting w)\<rparr>)"
    by (auto split: if_splits)
  have "touches a w (w\<lparr>awaiting := removeAll a (awaiting w)\<rparr>)"
    by (auto simp add: touches_def timer_addrs_def)
  from touches_trans [OF this touches_reply_arrives] w' mem show ?thesis by blast
qed (use assms in \<open>auto simp add: extends_misc extends_scheduleRefresh extends_getPurchases_start
      extends_getPurchases_finish extends_changePlan_finish\<close>)

lemma idle_step:
  assumes "idle a w" and "step e w = Some w'"
  shows "idle a w' \<and> heap w' ! a = heap w ! a \<and>
         count_list (lookups w') a = count_list (lookups w) a"
proof -
  from step_touches [OF assms(2)]
  consider "extends w w'" | b where "b \<in> timer_addrs w \<or> b \<in> set (awaiting w)" "touches b w w'"
    by blast
  then show ?thesis
  proof cases
    case 1
    with assms(1) show ?thesis by (auto simp add: idle_def extends_def)
  next
    case 2
    with assms(1) have "b \<noteq> a" by (auto simp add: idle_def)
    with 2(2) assms(1) show ?thesis by (auto simp add: idle_def touches_def)
  qed
qed

lemma idle_run:
  "idle a w \<Longrightarrow> run es w = Some w' \<Longrightarrow>
   idle a w' \<and> heap w' ! a = heap w ! a \<and> count_list (lookups w') a = count_list (lookups w) a"
proof (induction es arbitrary: w)
  case Nil
  then show ?case by simp
next
  case (Cons e es)
  then obtain w1 where s: "step e w = Some w1" and r: "run es w1 = Some w'"
    by (auto split: option.splits)
  from idle_step [OF Cons.prems(1) s] Cons.IH [OF _ r] show ?case by simp
qed

lemma dormant_run:
  assumes "dormant a w" and "run es w = Some w'"
  shows "dormant a w' \<and> heap w' ! a = heap w ! a"
proof -
  from assms(1) have i: "idle a w" and c: "count_list (lookups w) a = 0"
    by (simp_all add: dormant_def count_list_0_iff)
  from idle_run [OF i assms(2)] c show ?thesis
    by (simp add: dormant_def count_list_0_iff)
qed

section \<open>Evaluation of concrete runs\<close>

lemmas eval_defs = init_def advance_def scheduleRefresh_def setTimeout_sr_def mk_id_def show_int_def
  show_nat.simps digit_def schedulePurchaseRefreshes_def clearSchedules_def clearStoredData_def
  getPurchases_start_def getPurchases_finish_def changePlan_finish_def getAccessKey_def
  getSubscriptionId_def getSessionId_def getStoredAccessKeys_def storeAccessKey_def
  setSubscriptionId_def setSessionId_def js_or_def property_def str_of_def startsWith_def
  set_inProgress_def set_completed_def refresh_succeeded_def refresh_failed_def
  timer_callback_def reply_arrives_def checkout_done_def timeout_ms_def new_Date_def
  valid_time_def inherited_def assign_def Let_def

section \<open>Scheduling the same instant twice\<close>

lemma filter_distinct_map_le_1:
  "distinct (map f xs) \<Longrightarrow> length (filter (\<lambda>a. f a = i) xs) \<le> 1"
proof (induction xs)
  case Nil
  show ?case by simp
next
  case (Cons x xs)
  show ?case
  proof (cases "f x = i")
    case True
    with Cons.prems have "\<forall>a \<in> set xs. f a \<noteq> i" by (auto intro: rev_image_eqI)
    then have "filter (\<lambda>a. f a = i) xs = []" by (simp add: filter_empty_conv)
    with True show ?thesis by simp
  next
    case False
    with Cons show ?thesis by simp
  qed
qed

lemma count_id_le_1: "scheduler_inv w \<Longrightarrow> count_id w i \<le> 1"
  using filter_distinct_map_le_1 [of "\<lambda>a. id_sr (heap w ! a)" "schedules w" i]
  by (simp add: count_id_def scheduler_inv_def)

lemma count_id_pos: "has_id w i \<Longrightarrow> 0 < count_id w i"
  by (auto simp add: has_id_iff count_id_def filter_empty_conv)

text \<open>
  Claim C1: in every state the page can reach, calling \<open>scheduleRefresh(s, t, r1)\<close> and
  then \<open>scheduleRefresh(s, t, r2)\<close> leaves exactly one listed task whose id is the one
  derived from \<open>(s, t)\<close>; the second call changes nothing at all, whatever its reason.
\<close>

theorem scheduleRefresh_idempotent:
  assumes "run es (init t0) = Some w"
  shows "scheduleRefresh s t r2 (scheduleRefresh s t r1 w) = scheduleRefresh s t r1 w \<and>
         count_id (scheduleRefresh s t r2 (scheduleRefresh s t r1 w)) (mk_id s t) = 1"
proof -
  from assms have inv: "scheduler_inv w" by (rule inv_reachable)
  then have inv1: "scheduler_inv (scheduleRefresh s t r1 w)" by (rule inv_scheduleRefresh)
  from inv have "has_id (scheduleRefresh s t r1 w) (mk_id s t)"
    by (intro has_id_scheduleRefresh) (simp add: scheduler_inv_def)
  then have "0 < count_id (scheduleRefresh s t r1 w) (mk_id s t)" by (rule count_id_pos)
  with count_id_le_1 [OF inv1, of "mk_id s t"]
  have "count_id (scheduleRefresh s t r1 w) (mk_id s t) = 1" by simp
  then show ?thesis by (simp add: scheduleRefresh_twice)
qed

theorem scheduleRefresh_idempotent_witness:
  "run [Call_scheduleRefresh ''sub_1'' 5000 ''post-expiration''] (init 1000)
     = Some (scheduleRefresh ''sub_1'' 5000 ''post-expiration'' (init 1000)) \<and>
   scheduleRefresh ''sub_1'' 2000 ''retry-pre-expiration''
     (scheduleRefresh ''sub_1'' 2000 ''pre-expiration''
        (scheduleRefresh ''sub_1'' 5000 ''post-expiration'' (init 1000)))
     = scheduleRefresh ''sub_1'' 2000 ''pre-expiration''
         (scheduleRefresh ''sub_1'' 5000 ''post-expiration'' (init 1000)) \<and>
   count_id (scheduleRefresh ''sub_1'' 2000 ''retry-pre-expiration''
     (scheduleRefresh ''sub_1'' 2000 ''pre-expiration''
        (scheduleRefresh ''sub_1'' 5000 ''post-expiration'' (init 1000)))) (mk_id ''sub_1'' 2000) = 1"
proof -
  have r: "run [Call_scheduleRefresh ''sub_1'' 5000 ''post-expiration''] (init 1000)
     = Some (scheduleRefresh ''sub_1'' 5000 ''post-expiration'' (init 1000))"
    by simp
  from scheduleRefresh_idempotent [OF r, where s = "''sub_1''" and t = 2000
      and ?r1.0 = "''pre-expiration''" and ?r2.0 = "''retry-pre-expiration''"] r
  show ?thesis by blast
qed

section \<open>Refreshes around the expiration\<close>

lemma timeout_ms_within: "0 < d \<Longrightarrow> d \<le> 2147483647 \<Longrightarrow> timeout_ms d = d"
  by (simp add: timeout_ms_def)

lemma scheduleRefresh_eq:
  "scheduleRefresh s t r w =
     (if has_id w (mk_id s t) then w
      else w\<lparr>heap := heap w @ [new_schedule s t r],
             schedules := schedules w @ [length (heap w)],
             timers := timers w @
               (if now w < t then [(length (heap w), now w + timeout_ms (t - now w))] else [])\<rparr>)"
  by (simp add: scheduleRefresh_old scheduleRefresh_new new_schedule_def)

lemma has_id_after_scheduleRefresh:
  assumes "\<forall>a \<in> set (schedules w). a < length (heap w)"
  shows "has_id (scheduleRefresh s t r w) i \<longleftrightarrow> has_id w i \<or> i = mk_id s t"
proof (cases "has_id w (mk_id s t)")
  case True
  then show ?thesis by (auto simp add: scheduleRefresh_old)
next
  case False
  have "id_sr ((heap w @ [x]) ! b) = id_sr (heap w ! b)" if "b \<in> set (schedules w)" for b x
    using that assms by (simp add: nth_append)
  with False show ?thesis
    by (auto simp add: scheduleRefresh_eq has_id_iff new_schedule_def)
qed

lemma new_tasks_same [simp]: "new_tasks w w = []" "new_timers w w = []"
  by (simp_all add: new_tasks_def new_timers_def)

lemma schedulePurchaseRefreshes_tasks:
  assumes valid: "\<forall>a \<in> set (schedules w). a < length (heap w)"
    and T: "expirationDate p = Some T"
  shows "new_tasks w (schedulePurchaseRefreshes p w) =
           (if now w < T - 10000 \<and> valid_time T \<and> valid_time (T - 10000) \<and>
               \<not> has_id w (mk_id (purchaseId p) (T - 10000))
            then [new_schedule (purchaseId p) (T - 10000) ''pre-expiration''] else []) @
           (if now w < T + 10000 \<and> valid_time T \<and> valid_time (T + 10000) \<and>
               \<not> has_id w (mk_id (purchaseId p) (T + 10000))
            then [new_schedule (purchaseId p) (T + 10000) ''post-expiration''] else [])"
    and "new_timers w (schedulePurchaseRefreshes p w) =
           map (\<lambda>a. (a, now w + timeout_ms (scheduledAt (heap (schedulePurchaseRefreshes p w) ! a)
                                          - now w)))
             (drop (length (schedules w)) (schedules (schedulePurchaseRefreshes p w)))"
proof -
  let ?pre = "mk_id (purchaseId p) (T - 10000)" and ?post = "mk_id (purchaseId p) (T + 10000)"
  let ?w1 = "if valid_time (T - 10000) \<and> T - 10000 > now w
             then scheduleRefresh (purchaseId p) (T - 10000) ''pre-expiration'' w else w"
  let ?tasks = "(if now w < T - 10000 \<and> valid_time T \<and> valid_time (T - 10000) \<and> \<not> has_id w ?pre
            then [new_schedule (purchaseId p) (T - 10000) ''pre-expiration''] else []) @
           (if now w < T + 10000 \<and> valid_time T \<and> valid_time (T + 10000) \<and> \<not> has_id w ?post
            then [new_schedule (purchaseId p) (T + 10000) ''post-expiration''] else [])"
  let ?tm = "map (\<lambda>a. (a, now w + timeout_ms (scheduledAt (heap (schedulePurchaseRefreshes p w) ! a)
                                          - now w)))
             (drop (length (schedules w)) (schedules (schedulePurchaseRefreshes p w)))"
  have invalid: "schedulePurchaseRefreshes p w = w" if "\<not> valid_time T"
    using that by (simp add: schedulePurchaseRefreshes_unfold T new_Date_def)
  have ne: "?post \<noteq> ?pre"
  proof
    assume "?post = ?pre"
    then have "T + 10000 = T - 10000" by (rule mk_id_inj)
    then show False by simp
  qed
  have now1: "now ?w1 = now w" by (simp add: scheduleRefresh_eq)
  have has1: "has_id ?w1 ?post \<longleftrightarrow> has_id w ?post"
    using ne by (simp add: has_id_after_scheduleRefresh [OF valid])
  have eq: "schedulePurchaseRefreshes p w =
      (if valid_time (T + 10000) \<and> T + 10000 > now w
       then scheduleRefresh (purchaseId p) (T + 10000) ''post-expiration'' ?w1 else ?w1)"
    if "valid_time T"
    using that by (simp add: schedulePurchaseRefreshes_unfold T new_Date_def Let_def now1)
  show "new_tasks w (schedulePurchaseRefreshes p w) = ?tasks"
  proof (cases "valid_time T")
    case False
    with invalid show ?thesis by simp
  next
    case True
    show ?thesis
      unfolding eq [OF True]
      apply (subst scheduleRefresh_eq [of _ "T + 10000"])
      apply (simp only: has1)
      apply (simp add: scheduleRefresh_eq new_tasks_def nth_append True)
      done
  qed
  show "new_timers w (schedulePurchaseRefreshes p w) = ?tm"
  proof (cases "valid_time T")
    case False
    with invalid show ?thesis by simp
  next
    case True
    show ?thesis
      unfolding eq [OF True]
      apply (subst (1 2 3) scheduleRefresh_eq [of _ "T + 10000"])
      apply (simp only: has1 now1)
      apply (simp add: scheduleRefresh_eq new_timers_def nth_append new_schedule_def)
      done
  qed
qed

lemma stale_task_dormant:
  assumes inv: "scheduler_inv w" and past: "t \<le> now w" and fresh: "\<not> has_id w (mk_id s t)"
  shows "dormant (length (heap w)) (scheduleRefresh s t r w)"
    and "heap (scheduleRefresh s t r w) ! length (heap w) = new_schedule s t r"
proof -
  from inv have "length (heap w) \<notin> timer_addrs w" "length (heap w) \<notin> set (awaiting w)"
    "length (heap w) \<notin> set (lookups w)"
    by (auto simp add: scheduler_inv_def)
  with past fresh show "dormant (length (heap w)) (scheduleRefresh s t r w)"
    by (simp add: scheduleRefresh_eq dormant_def idle_def timer_addrs_def)
  from fresh show "heap (scheduleRefresh s t r w) ! length (heap w) = new_schedule s t r"
    by (simp add: scheduleRefresh_eq)
qed

lemma schedulePurchaseRefreshes_expired:
  "expirationDate p = Some T \<Longrightarrow> T + 10000 \<le> now w \<Longrightarrow> schedulePurchaseRefreshes p w = w"
  by (simp add: schedulePurchaseRefreshes_unfold new_Date_def Let_def)

text \<open>
  Claim C2 says that a task at \<open>T - 10s\<close> with reason \<open>pre-expiration\<close> is registered
  whenever that instant is in the future. After a plan change at instant 1000 the task
  \<open>post-change-verification\<close> holds the id of \<open>sub_1\<close> at 11000. A purchase of \<open>sub_1\<close>
  expiring at 21000 then gets its \<open>post-expiration\<close> task at 31000, but
  \<open>scheduleRefresh\<close> drops the one at 11000: no \<open>pre-expiration\<close> task is listed for it,
  although 11000 is in the future.
\<close>

theorem pre_expiration_not_registered_counterexample:
  "map_option heap
     (run [Done_changePlan (PlanOk \<lparr>purchaseId = ''sub_1'', expirationDate = Some 100000\<rparr> []),
           Done_getPurchases
             (PurchasesOk [\<lparr>purchaseId = ''sub_1'', expirationDate = Some 21000\<rparr>] [])]
        (init 1000))
   = Some [\<lparr>id_sr = ''sub_1-90000'', subscriptionId = ''sub_1'', scheduledAt = 90000,
             completed = False, inProgress = False, reason = ''pre-expiration''\<rparr>,
           \<lparr>id_sr = ''sub_1-110000'', subscriptionId = ''sub_1'', scheduledAt = 110000,
             completed = False, inProgress = False, reason = ''post-expiration''\<rparr>,
           \<lparr>id_sr = ''sub_1-11000'', subscriptionId = ''sub_1'', scheduledAt = 11000,
             completed = False, inProgress = False, reason = ''post-change-verification''\<rparr>,
           \<lparr>id_sr = ''sub_1-31000'', subscriptionId = ''sub_1'', scheduledAt = 31000,
             completed = False, inProgress = False, reason = ''post-expiration''\<rparr>]"
  by (simp add: eval_defs)

lemma timers_due_at_scheduledAt:
  assumes tasks: "map (\<lambda>a. heap w' ! a) xs = ts"
    and bound: "\<forall>x \<in> set ts. now w < scheduledAt x \<and> scheduledAt x - now w \<le> 2147483647"
  shows "map (\<lambda>a. (a, now w + timeout_ms (scheduledAt (heap w' ! a) - now w))) xs
         = map (\<lambda>a. (a, scheduledAt (heap w' ! a))) xs"
proof (rule map_cong [OF refl])
  fix a assume "a \<in> set xs"
  with tasks have "heap w' ! a \<in> set ts" by auto
  with bound have "now w < scheduledAt (heap w' ! a)"
    "scheduledAt (heap w' ! a) - now w \<le> 2147483647" by auto
  then have "timeout_ms (scheduledAt (heap w' ! a) - now w) = scheduledAt (heap w' ! a) - now w"
    by (intro timeout_ms_within) simp_all
  then show "(a, now w + timeout_ms (scheduledAt (heap w' ! a) - now w))
             = (a, scheduledAt (heap w' ! a))" by simp
qed

text \<open>
  Claim C2, amended: for a purchase with expiration instant \<open>T\<close>,
  \<open>schedulePurchaseRefreshes\<close> lists a task at \<open>T - 10s\<close> with reason \<open>pre-expiration\<close>
  and one at \<open>T + 10s\<close> with reason \<open>post-expiration\<close>, each exactly when its instant is a
  valid date strictly later than \<open>Date.now()\<close> and no task with the id of that purchase
  and instant is listed yet. Each new task gets a timer, due after the platform's delay,
  which is at the task's instant when \<open>T + 10s\<close> is no more than \<open>2^31 - 1\<close> ms away. A
  purchase whose \<open>T + 10s\<close> is not in the future leaves the state unchanged. A task
  registered with an instant that is not in the future gets no timer: whatever happens
  afterwards, it is never looked up, never suspended and its object never changes.
\<close>

theorem schedulePurchaseRefreshes_future_unlisted:
  assumes reach: "run es0 (init t0) = Some w" and T: "expirationDate p = Some T"
  shows "new_tasks w (schedulePurchaseRefreshes p w) =
           (if now w < T - 10000 \<and> valid_time T \<and> valid_time (T - 10000) \<and>
               \<not> has_id w (mk_id (purchaseId p) (T - 10000))
            then [new_schedule (purchaseId p) (T - 10000) ''pre-expiration''] else []) @
           (if now w < T + 10000 \<and> valid_time T \<and> valid_time (T + 10000) \<and>
               \<not> has_id w (mk_id (purchaseId p) (T + 10000))
            then [new_schedule (purchaseId p) (T + 10000) ''post-expiration''] else []) \<and>
         new_timers w (schedulePurchaseRefreshes p w) =
           map (\<lambda>a. (a, now w + timeout_ms (scheduledAt (heap (schedulePurchaseRefreshes p w) ! a)
                                          - now w)))
             (drop (length (schedules w)) (schedules (schedulePurchaseRefreshes p w))) \<and>
         (T + 10000 - now w \<le> 2147483647 \<longrightarrow>
            new_timers w (schedulePurchaseRefreshes p w) =
              map (\<lambda>a. (a, scheduledAt (heap (schedulePurchaseRefreshes p w) ! a)))
                (drop (length (schedules w)) (schedules (schedulePurchaseRefreshes p w)))) \<and>
         (T + 10000 \<le> now w \<longrightarrow> schedulePurchaseRefreshes p w = w) \<and>
         (\<forall>s t r es w'.
            t \<le> now w \<and> \<not> has_id w (mk_id s t) \<and> run es (scheduleRefresh s t r w) = Some w'
            \<longrightarrow> heap w' ! length (heap w) = new_schedule s t r \<and> dormant (length (heap w)) w')"
proof -
  from reach have inv: "scheduler_inv w" by (rule inv_reachable)
  then have valid: "\<forall>a \<in> set (schedules w). a < length (heap w)"
    by (simp add: scheduler_inv_def)
  note tasks = schedulePurchaseRefreshes_tasks(1) [OF valid T]
  note tms = schedulePurchaseRefreshes_tasks(2) [OF valid T]
  have due: "new_timers w (schedulePurchaseRefreshes p w) =
              map (\<lambda>a. (a, scheduledAt (heap (schedulePurchaseRefreshes p w) ! a)))
                (drop (length (schedules w)) (schedules (schedulePurchaseRefreshes p w)))"
    if "T + 10000 - now w \<le> 2147483647"
  proof -
    have "map (\<lambda>a. heap (schedulePurchaseRefreshes p w) ! a)
            (drop (length (schedules w)) (schedules (schedulePurchaseRefreshes p w)))
          = new_tasks w (schedulePurchaseRefreshes p w)"
      by (simp add: new_tasks_def)
    moreover have "\<forall>x \<in> set (new_tasks w (schedulePurchaseRefreshes p w)).
        now w < scheduledAt x \<and> scheduledAt x - now w \<le> 2147483647"
      unfolding tasks using that by (auto simp add: new_schedule_def)
    ultimately show ?thesis
      unfolding tms by (rule timers_due_at_scheduledAt)
  qed
  have stale: "heap w' ! length (heap w) = new_schedule s t r \<and> dormant (length (heap w)) w'"
    if "t \<le> now w" "\<not> has_id w (mk_id s t)" "run es (scheduleRefresh s t r w) = Some w'"
    for s t r es w'
    using dormant_run [OF stale_task_dormant(1) [OF inv that(1,2)] that(3)]
      stale_task_dormant(2) [OF inv that(1,2), of r]
    by simp
  from tasks tms due schedulePurchaseRefreshes_expired [OF T] stale
  show ?thesis by blast
qed

theorem schedulePurchaseRefreshes_future_unlisted_witness:
  "new_tasks (init 1000)
     (schedulePurchaseRefreshes \<lparr>purchaseId = ''sub_1'', expirationDate = Some 20000\<rparr> (init 1000))
     = [new_schedule ''sub_1'' 10000 ''pre-expiration'',
        new_schedule ''sub_1'' 30000 ''post-expiration''] \<and>
   new_tasks (init 25000)
     (schedulePurchaseRefreshes \<lparr>purchaseId = ''sub_1'', expirationDate = Some 20000\<rparr> (init 25000))
     = [new_schedule ''sub_1'' 30000 ''post-expiration''] \<and>
   schedulePurchaseRefreshes \<lparr>purchaseId = ''sub_1'', expirationDate = Some 20000\<rparr> (init 30001)
     = init 30001 \<and>
   dormant 0 (advance 5000 (scheduleRefresh ''sub_1'' 500 ''late'' (init 1000)))"
proof -
  let ?p = "\<lparr>purchaseId = ''sub_1'', expirationDate = Some 20000\<rparr>"
  let ?w1 = "scheduleRefresh ''sub_1'' 500 ''late'' (init 1000)"
  have reach: "run [] (init t) = Some (init t)" for t by simp
  have T: "expirationDate ?p = Some 20000" by simp
  have fresh: "\<not> has_id (init t) i" for t i by (simp add: has_id_def init_def)
  have facts: "now (init t) = t" "heap (init t) = []" for t by (simp_all add: init_def)
  note th = schedulePurchaseRefreshes_future_unlisted [OF reach T]
  have r: "(500::int) \<le> now (init 1000) \<and> \<not> has_id (init 1000) (mk_id ''sub_1'' 500) \<and>
           run [Advance 5000] ?w1 = Some (advance 5000 ?w1)"
    by (simp add: fresh facts)
  from th [of 1000] have "\<forall>s t r es w'.
            t \<le> now (init 1000) \<and> \<not> has_id (init 1000) (mk_id s t) \<and>
            run es (scheduleRefresh s t r (init 1000)) = Some w'
            \<longrightarrow> heap w' ! length (heap (init 1000)) = new_schedule s t r \<and>
                dormant (length (heap (init 1000))) w'"
    by blast
  with r have d: "dormant (length (heap (init 1000))) (advance 5000 ?w1)" by blast
  from th [of 1000] have a: "new_tasks (init 1000) (schedulePurchaseRefreshes ?p (init 1000))
     = [new_schedule ''sub_1'' 10000 ''pre-expiration'',
        new_schedule ''sub_1'' 30000 ''post-expiration'']"
    by (simp add: fresh facts valid_time_def)
  from th [of 25000] have b: "new_tasks (init 25000) (schedulePurchaseRefreshes ?p (init 25000))
     = [new_schedule ''sub_1'' 30000 ''post-expiration'']"
    by (simp add: fresh facts valid_time_def)
  from th [of 30001] have c: "schedulePurchaseRefreshes ?p (init 30001) = init 30001"
    by (simp add: facts)
  from a b c d show ?thesis by (simp add: facts)
qed

section \<open>A failed refresh\<close>


lemma reply_arrives_failure:
  "\<forall>ps ks. reply \<noteq> PurchasesOk ps ks \<Longrightarrow> reply_arrives a reply w = refresh_failed a w"
  by (cases reply) (simp_all add: reply_arrives_def getPurchases_finish_def)

lemma refresh_failed_eq:
  "refresh_failed a w =
     set_inProgress a False
       (if startsWith (reason (heap w ! a)) ''retry-''
           \<or> has_id w (mk_id (subscriptionId (heap w ! a)) (now w + 30000))
        then w
        else w\<lparr>heap := heap w @ [new_schedule (subscriptionId (heap w ! a)) (now w + 30000)
                                   (''retry-'' @ reason (heap w ! a))],
               schedules := schedules w @ [length (heap w)],
               timers := timers w @ [(length (heap w), now w + 30000)]\<rparr>)"
  by (simp add: refresh_failed_def Let_def scheduleRefresh_eq timeout_ms_def)



text \<open>
  Claim C5 says that a failed task has its \<open>completed\<close> flag set. Here the lookup of task
  0 is rejected: the task ends with \<open>completed = False\<close>.
\<close>

theorem failed_task_not_completed_counterexample:
  "map_option heap
     (run [Done_getPurchases
             (PurchasesOk [\<lparr>purchaseId = ''sub_1'', expirationDate = Some 12000\<rparr>]
                [(''sub_1'', ''k1'')]),
           Advance 1000, Fire 0, Advance 200, Reply 0 PurchasesRejected] (init 1000))
   = Some [\<lparr>id_sr = ''sub_1-2000'', subscriptionId = ''sub_1'', scheduledAt = 2000,
             completed = False, inProgress = False, reason = ''pre-expiration''\<rparr>,
           \<lparr>id_sr = ''sub_1-22000'', subscriptionId = ''sub_1'', scheduledAt = 22000,
             completed = False, inProgress = False, reason = ''post-expiration''\<rparr>,
           \<lparr>id_sr = ''sub_1-32200'', subscriptionId = ''sub_1'', scheduledAt = 32200,
             completed = False, inProgress = False, reason = ''retry-pre-expiration''\<rparr>]"
  by (simp add: eval_defs)

lemma heap_refresh_failed:
  assumes "a < length (heap w)"
  shows "completed (heap (refresh_failed a w) ! a) = completed (heap w ! a)"
    and "\<not> inProgress (heap (refresh_failed a w) ! a)"
  using assms by (simp_all add: refresh_failed_eq set_inProgress_def nth_append)

lemma fields_refresh_failed:
  "awaiting (refresh_failed a w) = awaiting w"
  "lookups (refresh_failed a w) = lookups w"
  "timer_addrs (refresh_failed a w) \<subseteq> insert (length (heap w)) (timer_addrs w)"
  "length (heap w) \<le> length (heap (refresh_failed a w))"
  by (auto simp add: refresh_failed_eq set_inProgress_def timer_addrs_def)

lemma getPurchases_start_storage:
  assumes "iaptic_access_keys w' = iaptic_access_keys w"
    and "iaptic_session_id w' = iaptic_session_id w"
    and "iaptic_subscription_id w' = iaptic_subscription_id w"
  shows "fst (getPurchases_start i k w') = fst (getPurchases_start i k w)"
  using assms
  by (simp add: getPurchases_start_def getAccessKey_def getSubscriptionId_def getSessionId_def
      getStoredAccessKeys_def Let_def split: option.splits)

lemma getPurchases_start_raises:
  assumes "raises (fst (getPurchases_start i k w))"
  shows "\<exists>err. getPurchases_start i k w = (Thrown err, w)"
proof -
  let ?i1 = "if \<not> truthy i then js_or (getSubscriptionId w) (getSessionId w) else i"
  let ?k1 = "if \<not> truthy k then getAccessKey ?i1 w else map_option Key k"
  have eq: "getPurchases_start i k w =
      (if \<not> truthy ?i1 then (Returned [], w)
       else case (if truthy_key ?k1 then ?k1 else None) of
              None \<Rightarrow> (Thrown (NoAccessKey (str_of ?i1)), w)
            | Some x \<Rightarrow> (Fetching, w\<lparr>requests := requests w @ [GetPurchases (str_of ?i1) x]\<rparr>))"
    by (simp add: getPurchases_start_def Let_def)
  show ?thesis
  proof (cases "truthy ?i1")
    case False
    with assms eq show ?thesis by (simp add: raises_def)
  next
    case True
    show ?thesis
    proof (cases "if truthy_key ?k1 then ?k1 else None")
      case None
      with True eq show ?thesis by simp
    next
      case (Some x)
      with True eq have "fst (getPurchases_start i k w) = Fetching" by simp
      with assms show ?thesis by (simp add: raises_def)
    qed
  qed
qed

lemma timer_callback_raises:
  assumes nc: "\<not> completed (heap w ! a)"
    and free: "\<not> list_ex (\<lambda>b. subscriptionId (heap w ! b) = subscriptionId (heap w ! a)
                               \<and> inProgress (heap w ! b)) (schedules w)"
    and r: "raises (fst (getPurchases_start (Some (subscriptionId (heap w ! a))) None w))"
  shows "timer_callback a w =
           refresh_failed a ((set_inProgress a True w)\<lparr>lookups := lookups w @ [a]\<rparr>)"
proof -
  let ?w2 = "(set_inProgress a True w)\<lparr>lookups := lookups w @ [a]\<rparr>"
  have "fst (getPurchases_start (Some (subscriptionId (heap w ! a))) None ?w2)
        = fst (getPurchases_start (Some (subscriptionId (heap w ! a))) None w)"
    by (rule getPurchases_start_storage) (simp_all add: set_inProgress_def)
  with r have "raises (fst (getPurchases_start (Some (subscriptionId (heap w ! a))) None ?w2))"
    by simp
  then obtain err where
    "getPurchases_start (Some (subscriptionId (heap w ! a))) None ?w2 = (Thrown err, ?w2)"
    using getPurchases_start_raises by blast
  with nc free show ?thesis by (simp add: timer_callback_def Let_def)
qed

lemma failed_step_idle:
  assumes inv: "scheduler_inv w" and fails: "execution_fails a e w"
    and step: "step e w = Some w1"
  shows "idle a w1 \<and> \<not> completed (heap w1 ! a) \<and> \<not> inProgress (heap w1 ! a)"
proof (cases e)
  case (Reply b reply)
  with fails have b: "b = a" and a: "a \<in> set (awaiting w)" and fr: "failed_reply reply"
    by (simp_all add: execution_fails_def)
  from fr have fail: "\<forall>ps ks. reply \<noteq> PurchasesOk ps ks"
    by (auto simp add: failed_reply_def)
  from inv a have lt: "a < length (heap w)" and nc: "\<not> completed (heap w ! a)"
    and nt: "a \<notin> timer_addrs w"
    by (auto simp add: scheduler_inv_def)
  let ?w0 = "w\<lparr>awaiting := removeAll a (awaiting w)\<rparr>"
  from step Reply b a fail have w1: "w1 = refresh_failed a ?w0"
    by (simp add: reply_arrives_failure)
  have lt0: "a < length (heap ?w0)" using lt by simp
  have h1: "\<not> completed (heap w1 ! a)" "\<not> inProgress (heap w1 ! a)"
    unfolding w1 using heap_refresh_failed [OF lt0] nc by simp_all
  have "timer_addrs ?w0 = timer_addrs w" by (simp add: timer_addrs_def)
  with fields_refresh_failed(3) [of a ?w0] nt lt have "a \<notin> timer_addrs w1"
    unfolding w1 by auto
  moreover have "a \<notin> set (awaiting w1)" unfolding w1 by (simp add: fields_refresh_failed)
  moreover have "a < length (heap w1)"
    unfolding w1 using fields_refresh_failed(4) [of ?w0 a] lt by simp
  ultimately show ?thesis using h1 by (simp add: idle_def)
next
  case (Fire b)
  with fails have b: "b = a"
    and due: "case map_of (timers w) a of None \<Rightarrow> False | Some due \<Rightarrow> due \<le> now w"
    and nc: "\<not> completed (heap w ! a)"
    and free: "\<not> list_ex (\<lambda>b. subscriptionId (heap w ! b) = subscriptionId (heap w ! a)
                               \<and> inProgress (heap w ! b)) (schedules w)"
    and r: "raises (fst (getPurchases_start (Some (subscriptionId (heap w ! a))) None w))"
    by (simp_all add: execution_fails_def)
  from due obtain d where d: "map_of (timers w) a = Some d" "d \<le> now w"
    by (auto split: option.splits)
  then have mem: "a \<in> timer_addrs w"
    by (auto simp add: timer_addrs_def dest!: map_of_SomeD intro: rev_image_eqI)
  with inv have lt: "a < length (heap w)" and na: "a \<notin> set (awaiting w)"
    by (auto simp add: scheduler_inv_def)
  let ?w0 = "w\<lparr>timers := filter (\<lambda>p. fst p \<noteq> a) (timers w)\<rparr>"
  let ?w2 = "(set_inProgress a True ?w0)\<lparr>lookups := lookups ?w0 @ [a]\<rparr>"
  have r0: "raises (fst (getPurchases_start (Some (subscriptionId (heap ?w0 ! a))) None ?w0))"
    using r getPurchases_start_storage [of ?w0 w "Some (subscriptionId (heap w ! a))" None]
    by simp
  from step Fire b d have "w1 = timer_callback a ?w0" by simp
  also have "\<dots> = refresh_failed a ?w2"
    by (rule timer_callback_raises) (use nc free r0 in simp_all)
  finally have w1: "w1 = refresh_failed a ?w2" .
  have lt2: "a < length (heap ?w2)" using lt by (simp add: heap_set_inProgress)
  have nc2: "\<not> completed (heap ?w2 ! a)" using nc by (simp add: heap_set_inProgress)
  have h1: "\<not> completed (heap w1 ! a)" "\<not> inProgress (heap w1 ! a)"
    unfolding w1 using heap_refresh_failed [OF lt2] nc2 by simp_all
  have "a \<notin> timer_addrs ?w2" by (auto simp add: timer_addrs_def)
  moreover have "length (heap ?w2) = length (heap w)" by (simp add: heap_set_inProgress)
  ultimately have "a \<notin> timer_addrs w1"
    unfolding w1 using fields_refresh_failed(3) [of a ?w2] lt by auto
  moreover have "a \<notin> set (awaiting w1)"
    unfolding w1 using na by (simp add: fields_refresh_failed)
  moreover have "a < length (heap w1)"
    unfolding w1 using fields_refresh_failed(4) [of ?w2 a] lt2 by simp
  ultimately show ?thesis using h1 by (simp add: idle_def)
qed (use fails in \<open>simp_all add: execution_fails_def\<close>)

text \<open>
  Claim C5, amended: when the execution of a task fails, whether the reply to its request
  is a failure or the lookup raises before any request is sent, the task is left with
  \<open>completed = false\<close> and \<open>inProgress = false\<close>. It has no timer and is not suspended,
  so whatever happens afterwards its object never changes and it is never looked up again.
\<close>

theorem failed_refresh_stays_incomplete:
  assumes reach: "run es0 (init t0) = Some w"
    and fails: "execution_fails a e w"
    and step: "step e w = Some w1"
    and run: "run es w1 = Some w'"
  shows "\<not> completed (heap w' ! a) \<and> \<not> inProgress (heap w' ! a) \<and> idle a w' \<and>
         heap w' ! a = heap w1 ! a \<and>
         count_list (lookups w') a = count_list (lookups w1) a"
proof -
  from reach have inv: "scheduler_inv w" by (rule inv_reachable)
  from failed_step_idle [OF inv fails step]
  have i: "idle a w1" and h: "\<not> completed (heap w1 ! a)" "\<not> inProgress (heap w1 ! a)"
    by simp_all
  from idle_run [OF i run] h show ?thesis by simp
qed

theorem failed_refresh_stays_incomplete_witness:
  "(\<exists>w w1 w'. run [Done_getPurchases
                     (PurchasesOk [\<lparr>purchaseId = ''sub_1'', expirationDate = Some 12000\<rparr>]
                        [(''sub_1'', ''k1'')]),
                   Advance 1000, Fire 0] (init 1000) = Some w \<and>
           execution_fails 0 (Reply 0 PurchasesRejected) w \<and>
           step (Reply 0 PurchasesRejected) w = Some w1 \<and>
           run [Advance 40000] w1 = Some w' \<and>
           \<not> completed (heap w' ! 0) \<and> \<not> inProgress (heap w' ! 0) \<and> idle 0 w') \<and>
   (\<exists>w w1 w'. run [Call_scheduleRefresh ''sub_1'' 2000 ''pre-expiration'', Advance 1000]
                  (init 1000) = Some w \<and>
           execution_fails 0 (Fire 0) w \<and>
           step (Fire 0) w = Some w1 \<and>
           run [Advance 40000] w1 = Some w' \<and>
           \<not> completed (heap w' ! 0) \<and> \<not> inProgress (heap w' ! 0) \<and> idle 0 w')"
proof -
  let ?es0 = "[Done_getPurchases
                 (PurchasesOk [\<lparr>purchaseId = ''sub_1'', expirationDate = Some 12000\<rparr>]
                    [(''sub_1'', ''k1'')]),
               Advance 1000, Fire 0]"
  have "map_option awaiting (run ?es0 (init 1000)) = Some [0]"
    by (simp add: eval_defs)
  then obtain w where w: "run ?es0 (init 1000) = Some w" and aw: "awaiting w = [0]"
    by auto
  let ?w1 = "reply_arrives 0 PurchasesRejected (w\<lparr>awaiting := removeAll 0 (awaiting w)\<rparr>)"
  have f: "execution_fails 0 (Reply 0 PurchasesRejected) w"
    by (simp add: execution_fails_def failed_reply_def aw)
  have s: "step (Reply 0 PurchasesRejected) w = Some ?w1" by (simp add: aw)
  have r: "run [Advance 40000] ?w1 = Some (advance 40000 ?w1)" by simp
  from failed_refresh_stays_incomplete [OF w f s r] w f s r
  have first: "\<exists>w w1 w'. run ?es0 (init 1000) = Some w \<and>
           execution_fails 0 (Reply 0 PurchasesRejected) w \<and>
           step (Reply 0 PurchasesRejected) w = Some w1 \<and>
           run [Advance 40000] w1 = Some w' \<and>
           \<not> completed (heap w' ! 0) \<and> \<not> inProgress (heap w' ! 0) \<and> idle 0 w'"
    by blast
  let ?fs0 = "[Call_scheduleRefresh ''sub_1'' 2000 ''pre-expiration'', Advance 1000]"
  let ?v = "advance 1000 (scheduleRefresh ''sub_1'' 2000 ''pre-expiration'' (init 1000))"
  have v: "run ?fs0 (init 1000) = Some ?v" by simp
  have g: "execution_fails 0 (Fire 0) ?v"
    by (simp add: execution_fails_def raises_def eval_defs)
  have "step (Fire 0) ?v \<noteq> None" by (simp add: eval_defs)
  then obtain v1 where t: "step (Fire 0) ?v = Some v1" by auto
  have q: "run [Advance 40000] v1 = Some (advance 40000 v1)" by simp
  from failed_refresh_stays_incomplete [OF v g t q] v g t q
  have second: "\<exists>w w1 w'. run ?fs0 (init 1000) = Some w \<and>
           execution_fails 0 (Fire 0) w \<and>
           step (Fire 0) w = Some w1 \<and>
           run [Advance 40000] w1 = Some w' \<and>
           \<not> completed (heap w' ! 0) \<and> \<not> inProgress (heap w' ! 0) \<and> idle 0 w'"
    by blast
  from first second show ?thesis by blast
qed

section \<open>Mutual exclusion while the schedule list is not reset\<close>

text \<open>
  As long as neither \<open>clearSchedules\<close> nor \<open>clearStoredData\<close> is called, the check in
  the timer callback sees every task, and no two tasks of one subscription are ever in
  progress together.
\<close>

lemma excl_scheduleRefresh: "excl_inv w \<Longrightarrow> excl_inv (scheduleRefresh s t r w)"
  by (auto simp add: scheduleRefresh_eq excl_inv_def exclusive_def all_listed_def nth_append
      new_schedule_def less_Suc_eq)

lemma excl_schedulePurchaseRefreshes:
  "excl_inv w \<Longrightarrow> excl_inv (schedulePurchaseRefreshes p w)"
  by (simp add: schedulePurchaseRefreshes_unfold Let_def excl_scheduleRefresh split: option.splits)

lemma excl_storeAccessKey: "excl_inv (storeAccessKey i k w) = excl_inv w"
  by (simp add: excl_inv_def exclusive_def all_listed_def)

lemma excl_store_all:
  "excl_inv w \<Longrightarrow> excl_inv (foldl (\<lambda>w (subId, newKey). storeAccessKey subId newKey w) w ks)"
  by (induction ks arbitrary: w) (auto simp add: excl_storeAccessKey)

lemma excl_schedule_all:
  "excl_inv w \<Longrightarrow> excl_inv (foldl (\<lambda>w purchase. schedulePurchaseRefreshes purchase w) w ps)"
  by (induction ps arbitrary: w) (auto simp add: excl_schedulePurchaseRefreshes)

lemma excl_getPurchases_finish:
  "excl_inv w \<Longrightarrow> excl_inv (snd (getPurchases_finish reply w))"
  by (cases reply) (simp_all add: getPurchases_finish_def Let_def excl_store_all excl_schedule_all)

lemma excl_changePlan_finish:
  "excl_inv w \<Longrightarrow> excl_inv (snd (changePlan_finish reply w))"
  by (cases reply)
    (simp_all add: changePlan_finish_def Let_def excl_store_all excl_schedulePurchaseRefreshes
      excl_scheduleRefresh)

lemma excl_misc:
  "excl_inv (advance d w) = excl_inv w"
  "excl_inv (checkout_done i k w) = excl_inv w"
  "excl_inv (snd (getPurchases_start i k w)) = excl_inv w"
  "excl_inv (snd (refreshProducts l r w)) = excl_inv w"
  "excl_inv (snd (getProducts l r w)) = excl_inv w"
  "excl_inv (w\<lparr>timers := ts\<rparr>) = excl_inv w"
  "excl_inv (w\<lparr>awaiting := aw\<rparr>) = excl_inv w"
  "excl_inv (w\<lparr>lookups := lk\<rparr>) = excl_inv w"
  by (simp_all add: excl_inv_def exclusive_def all_listed_def advance_def checkout_done_def
      setSessionId_def Let_def refreshProducts_def getProducts_def getCachedProducts_def
      setCachedProducts_def split: option.splits prices_reply.splits)

lemma heap_set_inProgress_same:
  "a < length (heap w) \<Longrightarrow> inProgress (heap (set_inProgress a b w) ! a) = b"
  by (simp add: set_inProgress_def)

lemma heap_set_inProgress_other:
  "c \<noteq> a \<Longrightarrow> heap (set_inProgress a b w) ! c = heap w ! c"
  by (simp add: set_inProgress_def)

lemma excl_set_inProgress_False: "excl_inv w \<Longrightarrow> excl_inv (set_inProgress a False w)"
proof -
  assume k: "excl_inv w"
  have ip: "inProgress (heap (set_inProgress a False w) ! c) \<Longrightarrow> inProgress (heap w ! c)" for c
    by (cases "c = a"; cases "a < length (heap w)")
      (simp_all add: set_inProgress_def list_update_beyond)
  from k show ?thesis
    unfolding excl_inv_def exclusive_def all_listed_def
    by (auto simp add: heap_set_inProgress dest!: ip)
qed

lemma excl_set_completed: "excl_inv w \<Longrightarrow> excl_inv (set_completed a b w)"
proof -
  have f: "inProgress (heap (set_completed a b w) ! c) = inProgress (heap w ! c)"
    "subscriptionId (heap (set_completed a b w) ! c) = subscriptionId (heap w ! c)"
    "length (heap (set_completed a b w)) = length (heap w)"
    "schedules (set_completed a b w) = schedules w" for c
    by (cases "c = a"; cases "a < length (heap w)";
        simp add: set_completed_def list_update_beyond)+
  show "excl_inv w \<Longrightarrow> excl_inv (set_completed a b w)"
    by (simp add: excl_inv_def exclusive_def all_listed_def f)
qed

lemma excl_refresh_succeeded: "excl_inv w \<Longrightarrow> excl_inv (refresh_succeeded a w)"
  by (simp add: refresh_succeeded_def excl_set_inProgress_False excl_set_completed)

lemma excl_refresh_failed: "excl_inv w \<Longrightarrow> excl_inv (refresh_failed a w)"
  by (simp add: refresh_failed_def Let_def excl_set_inProgress_False excl_scheduleRefresh)

lemma excl_start:
  assumes k: "excl_inv w" and a: "a < length (heap w)"
    and free: "\<not> list_ex (\<lambda>b. subscriptionId (heap w ! b) = subscriptionId (heap w ! a)
                               \<and> inProgress (heap w ! b)) (schedules w)"
  shows "excl_inv (set_inProgress a True w)"
proof -
  from k have listed: "set (schedules w) = {..<length (heap w)}"
    and ex: "exclusive w"
    by (simp_all add: excl_inv_def all_listed_def)
  from free listed have none: "\<not> inProgress (heap w ! b)"
    if "b < length (heap w)" "subscriptionId (heap w ! b) = subscriptionId (heap w ! a)" for b
    using that by (auto simp add: list_ex_iff)
  have "exclusive (set_inProgress a True w)"
    unfolding exclusive_def
  proof (intro allI impI)
    fix c d
    assume c: "c < length (heap (set_inProgress a True w))"
      and d: "d < length (heap (set_inProgress a True w))"
      and h: "inProgress (heap (set_inProgress a True w) ! c) \<and>
              inProgress (heap (set_inProgress a True w) ! d) \<and>
              subscriptionId (heap (set_inProgress a True w) ! c)
                = subscriptionId (heap (set_inProgress a True w) ! d)"
    from c d have c': "c < length (heap w)" and d': "d < length (heap w)"
      by (simp_all add: heap_set_inProgress)
    from h have sub: "subscriptionId (heap w ! c) = subscriptionId (heap w ! d)"
      by (simp add: heap_set_inProgress)
    show "c = d"
    proof (cases "c = a")
      case True
      show ?thesis
      proof (rule ccontr)
        assume "c \<noteq> d"
        with True have "d \<noteq> a" by simp
        with h have "inProgress (heap w ! d)" by (simp add: heap_set_inProgress_other)
        with none [OF d'] sub True show False by simp
      qed
    next
      case False
      with h have ipc: "inProgress (heap w ! c)" by (simp add: heap_set_inProgress_other)
      show ?thesis
      proof (cases "d = a")
        case True
        with none [OF c'] sub ipc show ?thesis by simp
      next
        case False
        with h have "inProgress (heap w ! d)" by (simp add: heap_set_inProgress_other)
        with ex c' d' ipc sub show ?thesis by (auto simp add: exclusive_def)
      qed
    qed
  qed
  with listed show ?thesis
    by (simp add: excl_inv_def all_listed_def heap_set_inProgress)
qed

lemma excl_timer_callback:
  assumes k: "excl_inv w" and a: "a < length (heap w)"
  shows "excl_inv (timer_callback a w)"
proof -
  let ?sch = "heap w ! a"
  let ?w2 = "(set_inProgress a True w)\<lparr>lookups := lookups w @ [a]\<rparr>"
  obtain r w3 where start: "getPurchases_start (Some (subscriptionId ?sch)) None ?w2 = (r, w3)"
    by (cases "getPurchases_start (Some (subscriptionId ?sch)) None ?w2")
  then have w3: "w3 = snd (getPurchases_start (Some (subscriptionId ?sch)) None ?w2)" by simp
  show ?thesis
  proof (cases "completed ?sch \<or> list_ex (\<lambda>b. subscriptionId (heap w ! b) = subscriptionId ?sch
                               \<and> inProgress (heap w ! b)) (schedules w)")
    case True
    with k show ?thesis by (auto simp add: timer_callback_def Let_def)
  next
    case False
    then have "excl_inv (set_inProgress a True w)" using excl_start [OF k a] by simp
    then have k3: "excl_inv w3" by (simp add: w3 excl_misc)
    from False have tc: "timer_callback a w =
        (case r of Returned ps \<Rightarrow> refresh_succeeded a w3
                 | Thrown e \<Rightarrow> refresh_failed a w3
                 | Fetching \<Rightarrow> w3\<lparr>awaiting := awaiting w3 @ [a]\<rparr>)"
      by (simp add: timer_callback_def Let_def start)
    show ?thesis
      by (cases r) (simp_all add: tc k3 excl_refresh_succeeded excl_refresh_failed excl_misc)
  qed
qed

lemma excl_reply_arrives: "excl_inv w \<Longrightarrow> excl_inv (reply_arrives a reply w)"
proof -
  assume k: "excl_inv w"
  obtain r w1 where fin: "getPurchases_finish reply w = (r, w1)"
    by (cases "getPurchases_finish reply w")
  then have w1: "w1 = snd (getPurchases_finish reply w)" by simp
  have k1: "excl_inv w1" using k by (simp add: w1 excl_getPurchases_finish)
  show ?thesis
    by (cases r) (simp_all add: reply_arrives_def fin k1 excl_refresh_failed
        excl_refresh_succeeded)
qed

lemma excl_step:
  assumes k: "excl_inv w" and inv: "scheduler_inv w" and e: "\<not> is_reset e"
    and s: "step e w = Some w'"
  shows "excl_inv w'"
proof (cases e)
  case (Fire a)
  from s Fire obtain due where due: "map_of (timers w) a = Some due"
    and w': "w' = timer_callback a (w\<lparr>timers := filter (\<lambda>p. fst p \<noteq> a) (timers w)\<rparr>)"
    by (auto split: option.splits if_splits)
  from due have "a \<in> timer_addrs w"
    by (auto simp add: timer_addrs_def dest!: map_of_SomeD intro: rev_image_eqI)
  with inv have lt: "a < length (heap w)" by (auto simp add: scheduler_inv_def)
  have "excl_inv (timer_callback a (w\<lparr>timers := filter (\<lambda>p. fst p \<noteq> a) (timers w)\<rparr>))"
    by (rule excl_timer_callback) (simp_all add: excl_misc k lt)
  with w' show ?thesis by simp
next
  case (Reply a reply)
  with s have "w' = reply_arrives a reply (w\<lparr>awaiting := removeAll a (awaiting w)\<rparr>)"
    by (auto split: if_splits)
  with k show ?thesis by (simp add: excl_reply_arrives excl_misc)
next
  case Call_clearSchedules
  with e show ?thesis by (simp add: is_reset_def)
next
  case Call_clearStoredData
  with e show ?thesis by (simp add: is_reset_def)
qed (use k s in \<open>auto simp add: excl_misc excl_scheduleRefresh excl_getPurchases_finish
      excl_changePlan_finish\<close>)

lemma excl_run:
  "excl_inv w \<Longrightarrow> scheduler_inv w \<Longrightarrow> \<forall>e \<in> set es. \<not> is_reset e \<Longrightarrow> run es w = Some w'
   \<Longrightarrow> excl_inv w'"
proof (induction es arbitrary: w)
  case Nil
  then show ?case by simp
next
  case (Cons e es)
  then obtain w1 where s: "step e w = Some w1" and r: "run es w1 = Some w'"
    by (auto split: option.splits)
  from Cons.prems have ne: "\<not> is_reset e" and rest: "\<forall>e \<in> set es. \<not> is_reset e" by simp_all
  from excl_step [OF Cons.prems(1,2) ne s] inv_step [OF Cons.prems(2) s] rest r Cons.IH
  show ?case by blast
qed

lemma mutual_exclusion_without_reset:
  assumes "run es (init t0) = Some w" and "\<forall>e \<in> set es. \<not> is_reset e"
  shows "exclusive w"
proof -
  have "excl_inv (init t0)"
    by (simp add: excl_inv_def exclusive_def all_listed_def init_def)
  from excl_run [OF this inv_init assms(2,1)] show ?thesis by (simp add: excl_inv_def)
qed

lemma timer_callback_skips:
  assumes "list_ex (\<lambda>b. subscriptionId (heap w ! b) = subscriptionId (heap w ! a)
                        \<and> inProgress (heap w ! b)) (schedules w)"
  shows "timer_callback a w = w"
  using assms by (simp add: timer_callback_def Let_def)

section \<open>Resetting the scheduler\<close>

text \<open>
  Claim C4 says that at most one task per subscription is running at any time. The check in
  the callback searches \<open>this.schedules\<close> only. Task 0 is suspended on its request when
  \<open>clearSchedules\<close> replaces the list; a later purchase lookup lists new tasks for the same
  subscription, and when the timer of task 2 fires the search does not see task 0: both are
  in progress and two requests are out.
\<close>

theorem second_task_runs_after_reset:
  "map_option heap
     (run [Done_getPurchases
             (PurchasesOk [\<lparr>purchaseId = ''sub_1'', expirationDate = Some 12000\<rparr>]
                [(''sub_1'', ''k1'')]),
           Advance 1000, Fire 0, Call_clearSchedules,
           Done_getPurchases
             (PurchasesOk [\<lparr>purchaseId = ''sub_1'', expirationDate = Some 13000\<rparr>] []),
           Advance 1000, Fire 2] (init 1000))
   = Some [\<lparr>id_sr = ''sub_1-2000'', subscriptionId = ''sub_1'', scheduledAt = 2000,
             completed = False, inProgress = True, reason = ''pre-expiration''\<rparr>,
           \<lparr>id_sr = ''sub_1-22000'', subscriptionId = ''sub_1'', scheduledAt = 22000,
             completed = False, inProgress = False, reason = ''post-expiration''\<rparr>,
           \<lparr>id_sr = ''sub_1-3000'', subscriptionId = ''sub_1'', scheduledAt = 3000,
             completed = False, inProgress = True, reason = ''pre-expiration''\<rparr>,
           \<lparr>id_sr = ''sub_1-23000'', subscriptionId = ''sub_1'', scheduledAt = 23000,
             completed = False, inProgress = False, reason = ''post-expiration''\<rparr>] \<and>
   map_option requests
     (run [Done_getPurchases
             (PurchasesOk [\<lparr>purchaseId = ''sub_1'', expirationDate = Some 12000\<rparr>]
                [(''sub_1'', ''k1'')]),
           Advance 1000, Fire 0, Call_clearSchedules,
           Done_getPurchases
             (PurchasesOk [\<lparr>purchaseId = ''sub_1'', expirationDate = Some 13000\<rparr>] []),
           Advance 1000, Fire 2] (init 1000))
   = Some [GetPurchases ''sub_1'' (Key ''k1''), GetPurchases ''sub_1'' (Key ''k1'')]"
  by (simp add: eval_defs)

text \<open>
  Claim C9 says that no task pending at the time of a reset executes its lookup afterwards.
  \<open>clearSchedules\<close> empties the list but cancels no timer. After \<open>clearSchedules\<close> the
  timer of task 0 fires and its request goes out. After \<open>clearStoredData\<close> it fires as
  well: the lookup is called, raises for lack of an access key, and the retry it schedules
  is the only entry of the list that was just cleared.
\<close>

theorem pending_task_runs_after_reset:
  "map_option lookups
     (run [Done_getPurchases
             (PurchasesOk [\<lparr>purchaseId = ''sub_1'', expirationDate = Some 12000\<rparr>]
                [(''sub_1'', ''k1'')]),
           Call_clearSchedules, Advance 1000, Fire 0] (init 1000))
   = Some [0] \<and>
   map_option requests
     (run [Done_getPurchases
             (PurchasesOk [\<lparr>purchaseId = ''sub_1'', expirationDate = Some 12000\<rparr>]
                [(''sub_1'', ''k1'')]),
           Call_clearSchedules, Advance 1000, Fire 0] (init 1000))
   = Some [GetPurchases ''sub_1'' (Key ''k1'')] \<and>
   map_option lookups
     (run [Done_getPurchases
             (PurchasesOk [\<lparr>purchaseId = ''sub_1'', expirationDate = Some 12000\<rparr>]
                [(''sub_1'', ''k1'')]),
           Call_clearStoredData, Advance 1000, Fire 0] (init 1000))
   = Some [0] \<and>
   map_option schedules
     (run [Done_getPurchases
             (PurchasesOk [\<lparr>purchaseId = ''sub_1'', expirationDate = Some 12000\<rparr>]
                [(''sub_1'', ''k1'')]),
           Call_clearStoredData, Advance 1000, Fire 0] (init 1000))
   = Some [2]"
  by (simp add: eval_defs)


end
